theory Spec2Isabelle
  imports
    Main
    "HOL-Library.AList"
    "HOL-Library.Sublist"
    "HOL-Library.Char_ord"
    "HOL-Library.List_Lexorder"
    "HOL-Library.Product_Lexorder"
    "HOL-Library.Multiset"
begin

section \<open>Python strings and dictionaries\<close>

text \<open>
  A Python \<open>str\<close> is a \<^typ>\<open>string\<close>. A Python \<open>dict\<close> keeps its keys in insertion order,
  so it is an association list with pairwise distinct keys: \<open>d.get(k)\<close> is
  \<^term>\<open>map_of d k\<close>, \<open>d[k] = v\<close> is \<^term>\<open>AList.update k v d\<close> (the value is replaced in
  place when the key is there and the pair is appended otherwise), \<open>del d[k]\<close> is
  \<^term>\<open>AList.delete k d\<close>, and \<open>d.values()\<close> is \<^term>\<open>map snd d\<close>.
\<close>

type_synonym rg = "(string \<times> string) list"

text \<open>\<open>s.split(d)\<close> for a separator of one character: never empty, one field more than
  there are separators.\<close>

fun str_split :: "char \<Rightarrow> string \<Rightarrow> string list" where
  "str_split d [] = [[]]"
| "str_split d (c # cs) =
     (if c = d then [] # str_split d cs
      else (case str_split d cs of [] \<Rightarrow> [[c]] | f # fs \<Rightarrow> (c # f) # fs))"

text \<open>\<open>sub in s\<close> on strings.\<close>

fun str_contains :: "string \<Rightarrow> string \<Rightarrow> bool" where
  "str_contains sub [] = (sub = [])"
| "str_contains sub (c # cs) = (prefix sub (c # cs) \<or> str_contains sub cs)"

text \<open>\<open>s.replace(old, new)\<close>: every occurrence, found from the left and not overlapping.\<close>

function str_replace :: "string \<Rightarrow> string \<Rightarrow> string \<Rightarrow> string" where
  "str_replace old new [] = (if old = [] then new else [])"
| "str_replace old new (c # cs) =
     (if old = [] then new @ c # str_replace old new cs
      else if prefix old (c # cs) then new @ str_replace old new (drop (length old) (c # cs))
      else c # str_replace old new cs)"
  by pat_completeness auto
termination
  by (relation "measure (\<lambda>(old, new, s). length s)") auto

section \<open>The name tokenizer and the placeholder resolver\<close>

text \<open>\<open>get_flowcell_lane\<close> (lines 44 to 49). The two index reads are reached only under
  the length test, as in the source.\<close>

definition get_flowcell_lane :: "string \<Rightarrow> string \<times> string" where
  "get_flowcell_lane read_name =
     (let parts = str_split CHR '':'' read_name
      in if length parts \<ge> 4 then (parts ! 2, parts ! 3)
         else (''unknown_fc'', ''unknown_lane''))"

text \<open>\<open>resolve_rg\<close> (lines 51 to 60). The loop assigns to keys that are already there, so
  the copy keeps its keys and their order; the second test reads the value after the first
  replacement.\<close>

definition resolve_rg :: "rg \<Rightarrow> string \<Rightarrow> string \<Rightarrow> rg" where
  "resolve_rg rg_template flowcell lane =
     map (\<lambda>(k, v).
            let v = (if str_contains ''[FLOWCELL]'' v
                     then str_replace ''[FLOWCELL]'' flowcell v else v);
                v = (if str_contains ''[LANE]'' v
                     then str_replace ''[LANE]'' lane v else v)
            in (k, v))
         rg_template"

section \<open>The alignment container\<close>

text \<open>
  The container library is outside the repository; its interface is modelled. A record has
  a name and tags. A tag name occurs at most once in a record, so the tags are a map:
  \<open>has_tag\<close> asks whether the map is defined, \<open>get_tag\<close> reads it, \<open>set_tag\<close> updates it. The
  tags the program reads (\<open>LB\<close>, \<open>RG\<close>) are text, on which \<open>str\<close> is the identity. Every other
  field of a record is behind \<open>payload\<close>, which the program never reads.
\<close>

record read =
  query_name :: string
  tags :: "string \<rightharpoonup> string"
  payload :: nat

definition set_tag :: "read \<Rightarrow> string \<Rightarrow> string \<Rightarrow> read" where
  "set_tag rd t v = rd\<lparr>tags := (tags rd)(t \<mapsto> v)\<rparr>"

text \<open>The header as \<open>to_dict\<close> gives it: section name to section, a section being one
  attribute mapping (\<open>HD\<close>), a list of them (\<open>SQ\<close>, \<open>RG\<close>, \<open>PG\<close>) or a list of lines
  (\<open>CO\<close>).\<close>

datatype hsection = Fields rg | Entries "rg list" | Comments "string list"

type_synonym header = "(string \<times> hsection) list"

text \<open>\<open>in_bam.header.get('RG', [])\<close>.\<close>

definition header_rg :: "header \<Rightarrow> rg list" where
  "header_rg h = (case map_of h ''RG'' of Some (Entries es) \<Rightarrow> es | _ \<Rightarrow> [])"

section \<open>\<open>process_bam\<close>\<close>

text \<open>
  The function reads the container at \<open>input_path\<close> twice; both readings give the same
  header and the same records, which are the first two arguments of the model. Its result
  is the container written and the counts printed. On templates whose values are strings
  and records whose tags are text, no operation of lines 66 to 167 fails: every subscript
  and every \<open>get_tag\<close> stands under its own test. The handler of lines 172 to 174 catches
  what the container library raises on a file it cannot read, which is outside the model.
\<close>

type_synonym final_rgs = "(string \<times> rg) list"

text \<open>Lines 66 to 71: the inner \<open>break\<close> leaves only the inner loop, so the flag is set
  exactly when some value of some template holds a placeholder.\<close>

definition placeholders :: "rg list \<Rightarrow> bool" where
  "placeholders rgs_data =
     list_ex (\<lambda>rg. list_ex (\<lambda>v. str_contains ''[FLOWCELL]'' v \<or> str_contains ''[LANE]'' v)
                            (map snd rg))
             rgs_data"

definition need_pass1 :: "rg list \<Rightarrow> bool \<Rightarrow> bool" where
  "need_pass1 rgs_data preserve_lb = (placeholders rgs_data \<or> preserve_lb)"

text \<open>Lines 83 and 84: one read group of the input header goes into the library index
  when it has both attributes.\<close>

definition index_entry :: "rg \<Rightarrow> (string \<times> string) list \<Rightarrow> (string \<times> string) list" where
  "index_entry rg_entry rg_to_lb =
     (case map_of rg_entry ''ID'' of
        None \<Rightarrow> rg_to_lb
      | Some i \<Rightarrow>
          (case map_of rg_entry ''LB'' of
             None \<Rightarrow> rg_to_lb
           | Some l \<Rightarrow> AList.update i l rg_to_lb))"

text \<open>Lines 82 to 84: the library index, from the read groups of the input header.\<close>

definition build_rg_to_lb :: "header \<Rightarrow> (string \<times> string) list" where
  "build_rg_to_lb in_header = fold index_entry (header_rg in_header) []"

text \<open>Lines 89 to 94: \<open>current_lb\<close> in the first pass.\<close>

definition pass1_current_lb :: "bool \<Rightarrow> (string \<times> string) list \<Rightarrow> read \<Rightarrow> string option" where
  "pass1_current_lb preserve_lb rg_to_lb rd =
     (if preserve_lb then
        (case tags rd ''LB'' of
           Some lb \<Rightarrow> Some lb
         | None \<Rightarrow> (case tags rd ''RG'' of Some g \<Rightarrow> map_of rg_to_lb g | None \<Rightarrow> None))
      else None)"

text \<open>Lines 97 to 103: the mapping the first pass resolves for one template.\<close>

definition pass1_resolved :: "string \<Rightarrow> string \<Rightarrow> string option \<Rightarrow> rg \<Rightarrow> rg" where
  "pass1_resolved fc lane current_lb template =
     (let resolved = resolve_rg template fc lane
      in (case current_lb of
            None \<Rightarrow> resolved
          | Some lb \<Rightarrow>
              (let resolved = AList.update ''LB'' lb resolved
               in (case map_of resolved ''ID'' of
                     Some i \<Rightarrow> AList.update ''ID'' (i @ ''.'' @ lb) resolved
                   | None \<Rightarrow> AList.update ''ID'' lb resolved))))"

text \<open>Lines 104 and 105: the upsert.\<close>

definition upsert :: "rg \<Rightarrow> final_rgs \<Rightarrow> final_rgs" where
  "upsert resolved final_rgs =
     (case map_of resolved ''ID'' of
        Some i \<Rightarrow> AList.update i resolved final_rgs
      | None \<Rightarrow> final_rgs)"

text \<open>Lines 86 to 105: one record of the first pass.\<close>

definition pass1_read ::
  "bool \<Rightarrow> (string \<times> string) list \<Rightarrow> rg list \<Rightarrow> read \<Rightarrow> final_rgs \<Rightarrow> final_rgs" where
  "pass1_read preserve_lb rg_to_lb rgs_data rd final_rgs =
     (case get_flowcell_lane (query_name rd) of (fc, lane) \<Rightarrow>
        (let current_lb = pass1_current_lb preserve_lb rg_to_lb rd
         in fold (\<lambda>template. upsert (pass1_resolved fc lane current_lb template))
                 rgs_data final_rgs))"

text \<open>Lines 76 to 84: the index is filled only when a first pass runs with library
  preservation.\<close>

definition rg_to_lb_of :: "header \<Rightarrow> rg list \<Rightarrow> bool \<Rightarrow> (string \<times> string) list" where
  "rg_to_lb_of in_header rgs_data preserve_lb =
     (if need_pass1 rgs_data preserve_lb \<and> preserve_lb then build_rg_to_lb in_header else [])"

text \<open>Lines 73 to 109: the final read-group set.\<close>

definition final_rgs_of :: "header \<Rightarrow> read list \<Rightarrow> rg list \<Rightarrow> bool \<Rightarrow> final_rgs" where
  "final_rgs_of in_header in_reads rgs_data preserve_lb =
     (if need_pass1 rgs_data preserve_lb then
        fold (pass1_read preserve_lb (rg_to_lb_of in_header rgs_data preserve_lb) rgs_data)
             in_reads []
      else fold upsert rgs_data [])"

text \<open>Line 120: the sort key; Python compares the tuples, and the strings in them,
  lexicographically, and \<open>sorted\<close> is stable, as \<^const>\<open>sort_key\<close> is.\<close>

definition rg_key :: "rg \<Rightarrow> string \<times> string \<times> string" where
  "rg_key x =
     (case map_of x ''SM'' of Some v \<Rightarrow> v | None \<Rightarrow> [],
      case map_of x ''LB'' of Some v \<Rightarrow> v | None \<Rightarrow> [],
      case map_of x ''ID'' of Some v \<Rightarrow> v | None \<Rightarrow> [])"

definition sorted_rgs :: "final_rgs \<Rightarrow> rg list" where
  "sorted_rgs final_rgs = sort_key rg_key (map snd final_rgs)"

text \<open>Lines 114 to 122: the header of the output.\<close>

definition new_header :: "header \<Rightarrow> final_rgs \<Rightarrow> bool \<Rightarrow> header" where
  "new_header in_header final_rgs strip_pg =
     (let header = AList.update ''RG'' (Entries []) in_header;
          header = (if strip_pg \<and> map_of header ''PG'' \<noteq> None
                    then AList.delete ''PG'' header else header)
      in AList.update ''RG''
           (Entries (fold (\<lambda>rg entries. entries @ [rg]) (sorted_rgs final_rgs) [])) header)"

text \<open>Lines 132 to 158: the candidate identifier of one record in the output pass.\<close>

definition pass2_resolved ::
  "bool \<Rightarrow> bool \<Rightarrow> (string \<times> string) list \<Rightarrow> rg list \<Rightarrow> read \<Rightarrow> rg" where
  "pass2_resolved need preserve_lb rg_to_lb rgs_data rd =
     (if need then
        (case get_flowcell_lane (query_name rd) of (fc, lane) \<Rightarrow>
           (let current_lb =
                  (if preserve_lb then
                     (case tags rd ''LB'' of
                        Some lb \<Rightarrow> Some lb
                      | None \<Rightarrow>
                          (case tags rd ''RG'' of Some g \<Rightarrow> map_of rg_to_lb g | None \<Rightarrow> None))
                   else None)
            in (case rgs_data of
                  [] \<Rightarrow> []
                | template # _ \<Rightarrow>
                    (let resolved = resolve_rg template fc lane
                     in (case current_lb of
                           None \<Rightarrow> resolved
                         | Some lb \<Rightarrow>
                             (let resolved = AList.update ''LB'' lb resolved
                              in (case map_of resolved ''ID'' of
                                    Some i \<Rightarrow> AList.update ''ID'' (i @ ''.'' @ lb) resolved
                                  | None \<Rightarrow> AList.update ''ID'' lb resolved)))))))
      else (case rgs_data of [] \<Rightarrow> [] | template # _ \<Rightarrow> template))"

definition pass2_rg_id ::
  "bool \<Rightarrow> bool \<Rightarrow> (string \<times> string) list \<Rightarrow> rg list \<Rightarrow> read \<Rightarrow> string option" where
  "pass2_rg_id need preserve_lb rg_to_lb rgs_data rd =
     (if rgs_data = [] then None
      else map_of (pass2_resolved need preserve_lb rg_to_lb rgs_data rd) ''ID'')"

text \<open>Lines 160 and 161: \<open>if rg_id\<close> is false for \<open>None\<close> and for the empty string.\<close>

definition assign :: "string option \<Rightarrow> read \<Rightarrow> read" where
  "assign rg_id rd =
     (case rg_id of
        None \<Rightarrow> rd
      | Some i \<Rightarrow> (if i \<noteq> [] then set_tag rd ''RG'' i else rd))"

text \<open>Line 164: the bucket of a record.\<close>

definition bucket :: "read \<Rightarrow> string" where
  "bucket rd = (case tags rd ''RG'' of Some g \<Rightarrow> g | None \<Rightarrow> ''None'')"

text \<open>Line 165, on a \<open>defaultdict(int)\<close>.\<close>

definition increment :: "string \<Rightarrow> (string \<times> nat) list \<Rightarrow> (string \<times> nat) list" where
  "increment k counts =
     AList.update k ((case map_of counts k of Some n \<Rightarrow> n | None \<Rightarrow> 0) + 1) counts"

text \<open>Lines 131 to 167: one record of the output pass, on the counts and the records
  written so far.\<close>

definition pass2_read ::
  "bool \<Rightarrow> bool \<Rightarrow> (string \<times> string) list \<Rightarrow> rg list \<Rightarrow> read \<Rightarrow>
   (string \<times> nat) list \<times> read list \<Rightarrow> (string \<times> nat) list \<times> read list" where
  "pass2_read need preserve_lb rg_to_lb rgs_data rd st =
     (case st of (counts, written) \<Rightarrow>
        (let rd' = assign (pass2_rg_id need preserve_lb rg_to_lb rgs_data rd) rd
         in (increment (bucket rd') counts, written @ [rd'])))"

record bam_output =
  out_header :: header
  out_reads :: "read list"
  out_counts :: "(string \<times> nat) list"

definition process_bam :: "header \<Rightarrow> read list \<Rightarrow> rg list \<Rightarrow> bool \<Rightarrow> bool \<Rightarrow> bam_output" where
  "process_bam in_header in_reads rgs_data preserve_lb strip_pg =
     (let need = need_pass1 rgs_data preserve_lb;
          rg_to_lb = rg_to_lb_of in_header rgs_data preserve_lb;
          final_rgs = final_rgs_of in_header in_reads rgs_data preserve_lb;
          header = new_header in_header final_rgs strip_pg;
          (counts, written) =
             fold (pass2_read need preserve_lb rg_to_lb rgs_data) in_reads ([], [])
      in \<lparr>out_header = header, out_reads = written, out_counts = counts\<rparr>)"

section \<open>The tag overrides of \<open>main\<close>\<close>

text \<open>\<open>tag_str.split(':', 1)\<close> on a string that holds a colon.\<close>

definition split_first :: "string \<Rightarrow> string \<times> string" where
  "split_first tag_str =
     (takeWhile (\<lambda>c. c \<noteq> CHR '':'') tag_str, drop 1 (dropWhile (\<lambda>c. c \<noteq> CHR '':'') tag_str))"

text \<open>Lines 187 to 191.\<close>

definition extra_tags :: "string list \<Rightarrow> rg" where
  "extra_tags tag_strs =
     fold (\<lambda>tag_str extra.
             if str_contains '':'' tag_str
             then (case split_first tag_str of (k, v) \<Rightarrow> AList.update k v extra)
             else extra)
          tag_strs []"

text \<open>\<open>rg.update(extra)\<close>.\<close>

definition dict_update :: "rg \<Rightarrow> rg \<Rightarrow> rg" where
  "dict_update extra rg = fold (\<lambda>(k, v). AList.update k v) extra rg"

text \<open>Lines 186 to 193; without \<open>--tag\<close> the templates stay as they are.\<close>

definition merge_tags :: "string list option \<Rightarrow> rg list \<Rightarrow> rg list" where
  "merge_tags tag_strs rgs_data =
     (case tag_strs of
        None \<Rightarrow> rgs_data
      | Some ts \<Rightarrow> (if ts = [] then rgs_data else map (dict_update (extra_tags ts)) rgs_data))"

section \<open>Notions the properties are stated with\<close>

text \<open>The mappings the first pass resolves for one record, template by template, and
  for the whole stream, in the order of the upserts.\<close>

definition pass1_writes :: "bool \<Rightarrow> (string \<times> string) list \<Rightarrow> rg list \<Rightarrow> read \<Rightarrow> rg list" where
  "pass1_writes preserve_lb rg_to_lb rgs_data rd =
     (case get_flowcell_lane (query_name rd) of (fc, lane) \<Rightarrow>
        map (pass1_resolved fc lane (pass1_current_lb preserve_lb rg_to_lb rd)) rgs_data)"

definition all_writes ::
  "bool \<Rightarrow> (string \<times> string) list \<Rightarrow> rg list \<Rightarrow> read list \<Rightarrow> rg list" where
  "all_writes preserve_lb rg_to_lb rgs_data in_reads =
     concat (map (pass1_writes preserve_lb rg_to_lb rgs_data) in_reads)"

text \<open>Any two mappings of the list that are upserted under the same key are equal.\<close>

definition value_identical :: "rg list \<Rightarrow> bool" where
  "value_identical rs =
     (\<forall>r \<in> set rs. \<forall>r' \<in> set rs.
        map_of r ''ID'' \<noteq> None \<and> map_of r ''ID'' = map_of r' ''ID'' \<longrightarrow> r = r')"

text \<open>Every entry of a final set is stored under its own \<open>ID\<close>.\<close>

definition keyed_by_id :: "final_rgs \<Rightarrow> bool" where
  "keyed_by_id f = (\<forall>(k, v) \<in> set f. map_of v ''ID'' = Some k)"

text \<open>The count the summary reports for an identifier, zero when it has no line.\<close>

definition count_of :: "(string \<times> nat) list \<Rightarrow> string \<Rightarrow> nat" where
  "count_of counts k = (case map_of counts k of Some n \<Rightarrow> n | None \<Rightarrow> 0)"

text \<open>The record the output pass writes for a record of the source.\<close>

definition pass2_assigned ::
  "bool \<Rightarrow> bool \<Rightarrow> (string \<times> string) list \<Rightarrow> rg list \<Rightarrow> read \<Rightarrow> read" where
  "pass2_assigned need preserve_lb rg_to_lb rgs_data rd =
     assign (pass2_rg_id need preserve_lb rg_to_lb rgs_data rd) rd"

text \<open>The body of the loop of lines 188 to 191.\<close>

definition parse_tag :: "string \<Rightarrow> rg \<Rightarrow> rg" where
  "parse_tag tag_str extra =
     (if str_contains '':'' tag_str
      then (case split_first tag_str of (k, v) \<Rightarrow> AList.update k v extra)
      else extra)"

section \<open>The tokenizer\<close>

lemma str_split_not_Nil: "str_split d s \<noteq> []"
  by (induction s) (auto split: list.splits)

lemma length_str_split: "length (str_split d s) = Suc (count_list s d)"
  by (induction s) (auto split: list.splits simp: str_split_not_Nil)

lemma str_split_fields: "f \<in> set (str_split d s) \<Longrightarrow> d \<notin> set f"
  by (induction s arbitrary: f) (auto split: list.splits if_splits)

lemma str_split_join: "concat (map (\<lambda>f. f @ [d]) (str_split d s)) = s @ [d]"
  by (induction s) (auto split: list.splits simp: str_split_not_Nil)

text \<open>
  C8. The fields \<open>parts\<close> that the tokenizer splits a name into are the colon-delimited
  fields of the name: none holds a colon, joined by colons they give the name back, and
  there is one more of them than there are colons. With at least four fields the result is
  the pair of the fields at positions 2 and 3, both of which exist; with fewer it is the
  fixed fallback pair. The function has a value on every string and no branch that fails.
\<close>

theorem get_flowcell_lane_tokenizes:
  "(let parts = str_split CHR '':'' read_name in
     concat (map (\<lambda>f. f @ '':'') parts) = read_name @ '':'' \<and>
     (\<forall>f \<in> set parts. CHR '':'' \<notin> set f) \<and>
     length parts = Suc (count_list read_name CHR '':'') \<and>
     (4 \<le> length parts \<longrightarrow>
        2 < length parts \<and> 3 < length parts \<and>
        get_flowcell_lane read_name = (parts ! 2, parts ! 3)) \<and>
     (length parts < 4 \<longrightarrow>
        get_flowcell_lane read_name = (''unknown_fc'', ''unknown_lane'')))"
  unfolding Let_def get_flowcell_lane_def
  using str_split_join [of "CHR '':''" read_name] str_split_fields [of _ "CHR '':''" read_name]
    length_str_split [of "CHR '':''" read_name]
  by auto

theorem get_flowcell_lane_tokenizes_witness:
  "get_flowcell_lane ''X:Y:FC1:L2:rest'' = (''FC1'', ''L2'') \<and>
   get_flowcell_lane ''readA'' = (''unknown_fc'', ''unknown_lane'') \<and>
   get_flowcell_lane ''a:b:c'' = (''unknown_fc'', ''unknown_lane'') \<and>
   get_flowcell_lane ''a:b::'' = ('''', '''')"
  using get_flowcell_lane_tokenizes [of "''X:Y:FC1:L2:rest''"]
    get_flowcell_lane_tokenizes [of "''readA''"]
    get_flowcell_lane_tokenizes [of "''a:b:c''"]
    get_flowcell_lane_tokenizes [of "''a:b::''"]
  by (simp add: Let_def)

section \<open>The first pass\<close>

lemma pass1_read_writes:
  "pass1_read p m rgs rd f = fold upsert (pass1_writes p m rgs rd) f"
  by (simp add: pass1_read_def pass1_writes_def fold_map comp_def split: prod.splits)

lemma fold_pass1_read:
  "fold (pass1_read p m rgs) rds f = fold upsert (all_writes p m rgs rds) f"
  by (induction rds arbitrary: f) (simp_all add: all_writes_def pass1_read_writes)

lemma keys_upsert:
  "fst ` set (upsert r f) = fst ` set f \<union> (case map_of r ''ID'' of Some i \<Rightarrow> {i} | None \<Rightarrow> {})"
  by (auto simp: upsert_def dom_update split: option.splits)

lemma keys_fold_upsert:
  "fst ` set (fold upsert rs f) = fst ` set f \<union> {i. \<exists>r \<in> set rs. map_of r ''ID'' = Some i}"
  by (induction rs arbitrary: f) (auto simp: keys_upsert split: option.splits)

lemma distinct_upsert: "distinct (map fst f) \<Longrightarrow> distinct (map fst (upsert r f))"
  by (simp add: upsert_def distinct_update split: option.splits)

lemma distinct_fold_upsert: "distinct (map fst f) \<Longrightarrow> distinct (map fst (fold upsert rs f))"
  by (induction rs arbitrary: f) (simp_all add: distinct_upsert)

lemma set_update_subset: "set (AList.update k v al) \<subseteq> insert (k, v) (set al)"
  by (induction al) auto

lemma keyed_upsert: "keyed_by_id f \<Longrightarrow> keyed_by_id (upsert r f)"
  using set_update_subset [of _ r f]
  by (fastforce simp: upsert_def keyed_by_id_def split: option.splits)

lemma keyed_fold_upsert: "keyed_by_id f \<Longrightarrow> keyed_by_id (fold upsert rs f)"
  by (induction rs arbitrary: f) (simp_all add: keyed_upsert)

lemma map_of_upsert:
  "map_of (upsert r f) k = (if map_of r ''ID'' = Some k then Some r else map_of f k)"
  by (auto simp: upsert_def update_conv' split: option.splits)

lemma map_of_fold_upsert_in:
  "map_of (fold upsert rs f) k = Some v \<Longrightarrow>
     (v \<in> set rs \<and> map_of v ''ID'' = Some k) \<or> map_of f k = Some v"
proof (induction rs arbitrary: f)
  case Nil
  then show ?case by simp
next
  case (Cons a rs)
  from Cons.prems have "map_of (fold upsert rs (upsert a f)) k = Some v" by simp
  from Cons.IH [OF this] show ?case
    by (auto simp: map_of_upsert split: if_splits)
qed

lemma map_of_fold_upsert_identical:
  "value_identical rs \<Longrightarrow> r \<in> set rs \<Longrightarrow> map_of r ''ID'' = Some k \<Longrightarrow>
     map_of (fold upsert rs []) k = Some r"
proof -
  assume vi: "value_identical rs" and r: "r \<in> set rs" and k: "map_of r ''ID'' = Some k"
  have "k \<in> fst ` set (fold upsert rs [])"
    using r k by (auto simp: keys_fold_upsert)
  then obtain v where v: "map_of (fold upsert rs []) k = Some v"
    by (metis domD dom_map_of_conv_image_fst)
  from map_of_fold_upsert_in [OF v] have "v \<in> set rs" "map_of v ''ID'' = Some k" by auto
  with vi r k have "v = r" unfolding value_identical_def by (metis option.distinct(1))
  with v show ?thesis by simp
qed

lemma map_of_fold_upsert_set:
  assumes "value_identical rs" "set rs = set rs'"
  shows "map_of (fold upsert rs []) = map_of (fold upsert rs' [])"
proof
  fix k
  have vi': "value_identical rs'" using assms by (simp add: value_identical_def)
  show "map_of (fold upsert rs []) k = map_of (fold upsert rs' []) k"
  proof (cases "\<exists>r \<in> set rs. map_of r ''ID'' = Some k")
    case True
    then obtain r where "r \<in> set rs" "map_of r ''ID'' = Some k" by blast
    then show ?thesis
      using map_of_fold_upsert_identical [OF assms(1), of r k]
        map_of_fold_upsert_identical [OF vi', of r k] assms(2) by simp
  next
    case False
    then have "k \<notin> fst ` set (fold upsert rs [])" "k \<notin> fst ` set (fold upsert rs' [])"
      using assms(2) by (auto simp: keys_fold_upsert)
    then have "map_of (fold upsert rs []) k = None" "map_of (fold upsert rs' []) k = None"
      by (simp_all add: map_of_eq_None_iff)
    then show ?thesis by simp
  qed
qed

lemma set_all_writes:
  "mset rds = mset rds' \<Longrightarrow> set (all_writes p m rgs rds) = set (all_writes p m rgs rds')"
  by (auto simp: all_writes_def dest: mset_eq_setD)

section \<open>The order of the read groups\<close>

lemma distinct_final_rgs_of: "distinct (map fst (final_rgs_of h rds rgs p))"
  by (simp add: final_rgs_of_def fold_pass1_read distinct_fold_upsert)

lemma keyed_final_rgs_of: "keyed_by_id (final_rgs_of h rds rgs p)"
proof -
  have "keyed_by_id []" by (simp add: keyed_by_id_def)
  then show ?thesis by (simp add: final_rgs_of_def fold_pass1_read keyed_fold_upsert)
qed

lemma rg_key_inj:
  assumes "distinct (map fst f)" "keyed_by_id f"
  shows "inj_on rg_key (snd ` set f)"
proof (rule inj_onI)
  fix v v' assume "v \<in> snd ` set f" "v' \<in> snd ` set f" and eq: "rg_key v = rg_key v'"
  then obtain k k' where kv: "(k, v) \<in> set f" "(k', v') \<in> set f" by auto
  with assms(2) have "map_of v ''ID'' = Some k" "map_of v' ''ID'' = Some k'"
    by (auto simp: keyed_by_id_def)
  with eq have "k = k'" by (simp add: rg_key_def)
  with kv assms(1) show "v = v'" by (meson eq_key_imp_eq_value)
qed

lemma sort_key_unique:
  assumes "mset xs = mset ys" "inj_on f (set xs)"
  shows "sort_key f xs = sort_key f ys"
proof (rule properties_for_sort_key)
  show "mset (sort_key f ys) = mset xs" using assms(1) by simp
  show "sorted (map f (sort_key f ys))" by simp
  fix k assume "k \<in> set (sort_key f ys)"
  then have k: "k \<in> set xs" using assms(1) by (metis set_sort mset_eq_setD)
  have set: "set ys = set xs" using assms(1) by (metis mset_eq_setD)
  have "\<And>zs. set zs \<subseteq> set xs \<Longrightarrow> filter (\<lambda>x. f k = f x) zs = filter (\<lambda>x. k = x) zs"
    using assms(2) k by (intro filter_cong) (auto dest: inj_onD)
  then have "filter (\<lambda>x. f k = f x) (sort_key f ys) = filter (\<lambda>x. k = x) (sort_key f ys)"
    "filter (\<lambda>x. f k = f x) xs = filter (\<lambda>x. k = x) xs"
    using set by simp_all
  moreover have "filter (\<lambda>x. k = x) (sort_key f ys) = filter (\<lambda>x. k = x) xs"
  proof -
    have "mset (filter (\<lambda>x. k = x) (sort_key f ys)) = mset (filter (\<lambda>x. k = x) xs)"
      using assms(1) by simp
    moreover have "\<And>zs. filter (\<lambda>x. k = x) zs = replicate (length (filter (\<lambda>x. k = x) zs)) k"
      by (intro replicate_eqI) auto
    ultimately show ?thesis by (metis size_mset)
  qed
  ultimately show "filter (\<lambda>x. f k = f x) (sort_key f ys) = filter (\<lambda>x. f k = f x) xs"
    by simp
qed

lemma mset_of_map_of:
  assumes "distinct (map fst f)" "distinct (map fst f')" "map_of f = map_of f'"
  shows "mset f = mset f'"
proof -
  have "set f = set f'" using assms by (simp add: map_of_inject_set)
  moreover have "distinct f" "distinct f'" using assms(1,2) by (auto simp: distinct_map)
  ultimately show ?thesis by (simp add: set_eq_iff_mset_eq_distinct)
qed

lemma sorted_rgs_order_free:
  assumes "distinct (map fst f)" "keyed_by_id f" "distinct (map fst f')" "map_of f' = map_of f"
  shows "sorted_rgs f' = sorted_rgs f"
proof -
  have "mset f = mset f'" using assms by (intro mset_of_map_of) simp_all
  then have "mset (map snd f) = mset (map snd f')" by (metis mset_map)
  moreover have "inj_on rg_key (set (map snd f))" using rg_key_inj [OF assms(1,2)] by simp
  ultimately show ?thesis unfolding sorted_rgs_def by (metis sort_key_unique)
qed

section \<open>The output pass and the header\<close>

lemma fold_append_entries: "fold (\<lambda>rg entries. entries @ [rg]) xs ys = ys @ xs"
  by (induction xs arbitrary: ys) simp_all

lemma sum_update:
  "sum_list (map snd (AList.update k (Suc (case map_of c k of Some n \<Rightarrow> n | None \<Rightarrow> 0)) c))
     = Suc (sum_list (map snd c))"
  by (induction c) auto

lemma sum_increment: "sum_list (map snd (increment k c)) = Suc (sum_list (map snd c))"
  using sum_update [of k c] by (simp add: increment_def)

lemma count_of_increment:
  "count_of (increment k c) k' = count_of c k' + (if k' = k then 1 else 0)"
  by (simp add: count_of_def increment_def update_conv')

lemma distinct_increment: "distinct (map fst c) \<Longrightarrow> distinct (map fst (increment k c))"
  by (simp add: increment_def distinct_update)

lemma fold_pass2_read:
  "fold (pass2_read n p m rgs) rds (c, w) =
     (fold increment (map (\<lambda>rd. bucket (pass2_assigned n p m rgs rd)) rds) c,
      w @ map (pass2_assigned n p m rgs) rds)"
  by (induction rds arbitrary: c w) (simp_all add: pass2_read_def pass2_assigned_def Let_def)

lemma sum_fold_increment:
  "sum_list (map snd (fold increment ks c)) = length ks + sum_list (map snd c)"
  by (induction ks arbitrary: c) (simp_all add: sum_increment)

lemma count_of_fold_increment:
  "count_of (fold increment ks c) k = count_of c k + length (filter (\<lambda>x. x = k) ks)"
  by (induction ks arbitrary: c) (simp_all add: count_of_increment)

lemma distinct_fold_increment:
  "distinct (map fst c) \<Longrightarrow> distinct (map fst (fold increment ks c))"
  by (induction ks arbitrary: c) (simp_all add: distinct_increment)

lemma keys_fold_increment: "fst ` set (fold increment ks c) = fst ` set c \<union> set ks"
  by (induction ks arbitrary: c) (auto simp: increment_def dom_update)

lemma out_reads_process_bam:
  "out_reads (process_bam h rds rgs p s) =
     map (pass2_assigned (need_pass1 rgs p) p (rg_to_lb_of h rgs p) rgs) rds"
  by (simp add: process_bam_def Let_def fold_pass2_read)

lemma out_counts_process_bam:
  "out_counts (process_bam h rds rgs p s) =
     fold increment
       (map (\<lambda>rd. bucket (pass2_assigned (need_pass1 rgs p) p (rg_to_lb_of h rgs p) rgs rd)) rds) []"
  by (simp add: process_bam_def Let_def fold_pass2_read)

lemma out_header_process_bam:
  "out_header (process_bam h rds rgs p s) = new_header h (final_rgs_of h rds rgs p) s"
  by (simp add: process_bam_def Let_def split: prod.splits)

lemma map_of_new_header:
  "map_of (new_header h f s) k =
     (if k = ''RG'' then Some (Entries (sorted_rgs f))
      else if k = ''PG'' \<and> s then None
      else map_of h k)"
  by (auto simp: new_header_def Let_def update_conv' delete_conv' fold_append_entries)

lemma filter_update_other:
  "\<not> P k \<Longrightarrow> filter (\<lambda>(k', v'). P k') (AList.update k v al) = filter (\<lambda>(k', v'). P k') al"
  by (induction al) auto

lemma filter_delete_other:
  "\<not> P k \<Longrightarrow> filter (\<lambda>(k', v'). P k') (AList.delete k al) = filter (\<lambda>(k', v'). P k') al"
  by (induction al) auto

lemma others_new_header:
  "filter (\<lambda>(k, v). k \<noteq> ''RG'' \<and> k \<noteq> ''PG'') (new_header h f s)
     = filter (\<lambda>(k, v). k \<noteq> ''RG'' \<and> k \<noteq> ''PG'') h"
  by (simp add: new_header_def Let_def
      filter_update_other [where P = "\<lambda>k. k \<noteq> ''RG'' \<and> k \<noteq> ''PG''"]
      filter_delete_other [where P = "\<lambda>k. k \<noteq> ''RG'' \<and> k \<noteq> ''PG''"])

lemma distinct_new_header: "distinct (map fst h) \<Longrightarrow> distinct (map fst (new_header h f s))"
  by (simp add: new_header_def Let_def distinct_update distinct_delete)

section \<open>The tag overrides\<close>

lemma str_contains_colon: "str_contains '':'' s \<longleftrightarrow> CHR '':'' \<in> set s"
  by (induction s) auto

lemma takeWhile_dropWhile_colon:
  "c \<in> set s \<Longrightarrow>
     s = takeWhile (\<lambda>x. x \<noteq> c) s @ c # drop 1 (dropWhile (\<lambda>x. x \<noteq> c) s)"
  by (induction s) auto

lemma split_first_parts:
  assumes "CHR '':'' \<in> set s"
  shows "s = fst (split_first s) @ '':'' @ snd (split_first s)"
    and "CHR '':'' \<notin> set (fst (split_first s))"
proof -
  show "s = fst (split_first s) @ '':'' @ snd (split_first s)"
    using takeWhile_dropWhile_colon [OF assms] by (simp add: split_first_def)
  show "CHR '':'' \<notin> set (fst (split_first s))"
    by (auto simp: split_first_def dest: set_takeWhileD)
qed

lemma extra_tags_fold: "extra_tags ts = fold parse_tag ts []"
  by (simp add: extra_tags_def parse_tag_def [abs_def])

lemma fold_parse_tag_filter:
  "fold parse_tag ts e = fold parse_tag (filter (\<lambda>s. CHR '':'' \<in> set s) ts) e"
  by (induction ts arbitrary: e) (simp_all add: parse_tag_def str_contains_colon)

lemma distinct_fold_parse_tag:
  "distinct (map fst e) \<Longrightarrow> distinct (map fst (fold parse_tag ts e))"
  by (induction ts arbitrary: e)
    (simp_all add: parse_tag_def distinct_update split: prod.splits)

lemma map_of_parse_tag:
  "map_of (parse_tag s e) k =
     (if CHR '':'' \<in> set s \<and> fst (split_first s) = k then Some (snd (split_first s))
      else map_of e k)"
  by (auto simp: parse_tag_def str_contains_colon update_conv' split: prod.splits)

lemma map_of_fold_parse_tag_keep:
  "\<forall>s \<in> set ts. CHR '':'' \<in> set s \<longrightarrow> fst (split_first s) \<noteq> k \<Longrightarrow>
     map_of (fold parse_tag ts e) k = map_of e k"
  by (induction ts arbitrary: e) (auto simp: map_of_parse_tag)

lemma map_of_fold_parse_tag_last:
  assumes "CHR '':'' \<in> set s"
    and "\<forall>s' \<in> set post. CHR '':'' \<in> set s' \<longrightarrow> fst (split_first s') \<noteq> fst (split_first s)"
  shows "map_of (fold parse_tag (pre @ s # post) e) (fst (split_first s)) = Some (snd (split_first s))"
  using assms by (simp add: map_of_fold_parse_tag_keep map_of_parse_tag)

lemma map_of_dict_update_aux:
  "distinct (map fst extra) \<Longrightarrow>
     map_of (fold (\<lambda>(k, v). AList.update k v) extra rg) k =
       (case map_of extra k of Some v \<Rightarrow> Some v | None \<Rightarrow> map_of rg k)"
proof (induction extra arbitrary: rg)
  case Nil
  then show ?case by simp
next
  case (Cons a extra)
  obtain k' v' where a: "a = (k', v')" by (cases a)
  with Cons.prems have "map_of extra k' = None" "distinct (map fst extra)"
    by (simp_all add: map_of_eq_None_iff)
  then show ?case using Cons.IH [of "AList.update k' v' rg"] a
    by (auto simp: update_conv' split: option.splits)
qed

lemma map_of_dict_update:
  "distinct (map fst extra) \<Longrightarrow>
     map_of (dict_update extra rg) k =
       (case map_of extra k of Some v \<Rightarrow> Some v | None \<Rightarrow> map_of rg k)"
  by (simp add: dict_update_def map_of_dict_update_aux)

section \<open>The claims about the first pass\<close>

lemma final_rgs_of_writes:
  "final_rgs_of h rds rgs p =
     fold upsert (if need_pass1 rgs p then all_writes p (rg_to_lb_of h rgs p) rgs rds else rgs) []"
  by (simp add: final_rgs_of_def fold_pass1_read)

lemma pass1_writes_same:
  "get_flowcell_lane (query_name rd) = get_flowcell_lane (query_name rd') \<Longrightarrow>
   pass1_current_lb p m rd = pass1_current_lb p m rd' \<Longrightarrow>
   pass1_writes p m rgs rd = pass1_writes p m rgs rd'"
  by (simp add: pass1_writes_def)

lemma keys_fold_upsert_set:
  "set ws = set ws' \<Longrightarrow> fst ` set (fold upsert ws []) = fst ` set (fold upsert ws' [])"
  by (simp only: keys_fold_upsert)

lemma final_keys_permutation:
  assumes "mset rds = mset rds'"
  shows "fst ` set (final_rgs_of h rds rgs p) = fst ` set (final_rgs_of h rds' rgs p)"
proof (cases "need_pass1 rgs p")
  case True
  have "set (all_writes p (rg_to_lb_of h rgs p) rgs rds)
      = set (all_writes p (rg_to_lb_of h rgs p) rgs rds')"
    using assms by (rule set_all_writes)
  then have "fst ` set (fold upsert (all_writes p (rg_to_lb_of h rgs p) rgs rds) [])
      = fst ` set (fold upsert (all_writes p (rg_to_lb_of h rgs p) rgs rds') [])"
    by (rule keys_fold_upsert_set)
  with True show ?thesis by (simp only: final_rgs_of_writes if_True)
next
  case False
  then show ?thesis by (simp only: final_rgs_of_writes if_False)
qed

lemma final_map_permutation:
  assumes "mset rds = mset rds'"
    and vi: "value_identical (all_writes p (rg_to_lb_of h rgs p) rgs rds)"
  shows "map_of (final_rgs_of h rds rgs p) = map_of (final_rgs_of h rds' rgs p)"
proof (cases "need_pass1 rgs p")
  case True
  have "set (all_writes p (rg_to_lb_of h rgs p) rgs rds)
      = set (all_writes p (rg_to_lb_of h rgs p) rgs rds')"
    using assms(1) by (rule set_all_writes)
  with vi have "map_of (fold upsert (all_writes p (rg_to_lb_of h rgs p) rgs rds) [])
      = map_of (fold upsert (all_writes p (rg_to_lb_of h rgs p) rgs rds') [])"
    by (rule map_of_fold_upsert_set)
  with True show ?thesis by (simp only: final_rgs_of_writes if_True)
next
  case False
  then show ?thesis by (simp only: final_rgs_of_writes if_False)
qed

lemma final_sorted_permutation:
  assumes "map_of (final_rgs_of h rds rgs p) = map_of (final_rgs_of h rds' rgs p)"
  shows "sorted_rgs (final_rgs_of h rds rgs p) = sorted_rgs (final_rgs_of h rds' rgs p)"
  using distinct_final_rgs_of keyed_final_rgs_of distinct_final_rgs_of assms
  by (rule sorted_rgs_order_free)

lemma map_of_fold_upsert_keep:
  "\<forall>r' \<in> set post. map_of r' ''ID'' \<noteq> Some k \<Longrightarrow>
     map_of (fold upsert post g) k = map_of g k"
  by (induction post arbitrary: g) (simp_all add: map_of_upsert)

lemma map_of_fold_upsert_last:
  assumes "ws = pre @ r # post" "map_of r ''ID'' = Some k"
    and "\<forall>r' \<in> set post. map_of r' ''ID'' \<noteq> Some k"
  shows "map_of (fold upsert ws g) k = Some r"
proof -
  have "map_of (fold upsert ws g) k = map_of (upsert r (fold upsert pre g)) k"
    unfolding assms(1) using assms(3) by (simp add: map_of_fold_upsert_keep)
  then show ?thesis using assms(2) by (simp add: map_of_upsert)
qed

lemma all_writes_unfold:
  "all_writes p m rgs rds =
     concat (map (\<lambda>rd. map (pass1_resolved (fst (get_flowcell_lane (query_name rd)))
                                 (snd (get_flowcell_lane (query_name rd)))
                                 (pass1_current_lb p m rd)) rgs) rds)"
  by (simp add: all_writes_def pass1_writes_def [abs_def] case_prod_beta)

lemma final_last_write:
  assumes "need_pass1 rgs p"
    and "all_writes p (rg_to_lb_of h rgs p) rgs rds = pre @ r # post"
    and "map_of r ''ID'' = Some k"
    and "\<forall>r' \<in> set post. map_of r' ''ID'' \<noteq> Some k"
  shows "map_of (final_rgs_of h rds rgs p) k = Some r"
proof -
  have "map_of (fold upsert (all_writes p (rg_to_lb_of h rgs p) rgs rds) []) k = Some r"
    using assms(2-4) by (rule map_of_fold_upsert_last)
  with assms(1) show ?thesis by (simp only: final_rgs_of_writes if_True)
qed

text \<open>
  C1, as the code has it. Two upserts under one key need not write the same mapping: a
  template whose \<open>ID\<close> holds no placeholder and whose \<open>SM\<close> holds \<open>[FLOWCELL]\<close> is written
  under the one key \<open>x\<close> with the flowcell of each record, and the entry kept is the one of
  the record read last, so the two orders of two records give two final sets.
\<close>

theorem first_pass_collision_counterexample:
  "mset [\<lparr>query_name = ''a:b:FC1:L1'', tags = Map.empty, payload = 0\<rparr>,
         \<lparr>query_name = ''a:b:FC2:L1'', tags = Map.empty, payload = 0\<rparr>]
     = mset [\<lparr>query_name = ''a:b:FC2:L1'', tags = Map.empty, payload = 0\<rparr>,
             \<lparr>query_name = ''a:b:FC1:L1'', tags = Map.empty, payload = 0\<rparr>] \<and>
   need_pass1 [[(''ID'', ''x''), (''SM'', ''[FLOWCELL]'')]] False \<and>
   pass1_writes False [] [[(''ID'', ''x''), (''SM'', ''[FLOWCELL]'')]]
     \<lparr>query_name = ''a:b:FC1:L1'', tags = Map.empty, payload = 0\<rparr>
     = [[(''ID'', ''x''), (''SM'', ''FC1'')]] \<and>
   pass1_writes False [] [[(''ID'', ''x''), (''SM'', ''[FLOWCELL]'')]]
     \<lparr>query_name = ''a:b:FC2:L1'', tags = Map.empty, payload = 0\<rparr>
     = [[(''ID'', ''x''), (''SM'', ''FC2'')]] \<and>
   \<not> value_identical (all_writes False [] [[(''ID'', ''x''), (''SM'', ''[FLOWCELL]'')]]
     [\<lparr>query_name = ''a:b:FC1:L1'', tags = Map.empty, payload = 0\<rparr>,
      \<lparr>query_name = ''a:b:FC2:L1'', tags = Map.empty, payload = 0\<rparr>]) \<and>
   final_rgs_of []
     [\<lparr>query_name = ''a:b:FC1:L1'', tags = Map.empty, payload = 0\<rparr>,
      \<lparr>query_name = ''a:b:FC2:L1'', tags = Map.empty, payload = 0\<rparr>]
     [[(''ID'', ''x''), (''SM'', ''[FLOWCELL]'')]] False
     = [(''x'', [(''ID'', ''x''), (''SM'', ''FC2'')])] \<and>
   final_rgs_of []
     [\<lparr>query_name = ''a:b:FC2:L1'', tags = Map.empty, payload = 0\<rparr>,
      \<lparr>query_name = ''a:b:FC1:L1'', tags = Map.empty, payload = 0\<rparr>]
     [[(''ID'', ''x''), (''SM'', ''[FLOWCELL]'')]] False
     = [(''x'', [(''ID'', ''x''), (''SM'', ''FC1'')])] \<and>
   map_of (final_rgs_of []
     [\<lparr>query_name = ''a:b:FC1:L1'', tags = Map.empty, payload = 0\<rparr>,
      \<lparr>query_name = ''a:b:FC2:L1'', tags = Map.empty, payload = 0\<rparr>]
     [[(''ID'', ''x''), (''SM'', ''[FLOWCELL]'')]] False) ''x''
   \<noteq> map_of (final_rgs_of []
     [\<lparr>query_name = ''a:b:FC2:L1'', tags = Map.empty, payload = 0\<rparr>,
      \<lparr>query_name = ''a:b:FC1:L1'', tags = Map.empty, payload = 0\<rparr>]
     [[(''ID'', ''x''), (''SM'', ''[FLOWCELL]'')]] False) ''x''"
  by (simp add: pass1_writes_def get_flowcell_lane_def pass1_resolved_def pass1_current_lb_def
      resolve_rg_def final_rgs_of_def need_pass1_def placeholders_def pass1_read_def
      rg_to_lb_of_def upsert_def value_identical_def all_writes_def)

text \<open>
  C1, amended. The mappings the first pass upserts are, record by record in stream order
  and template by template, those resolved for the record; of the mappings upserted under
  one key, the final set keeps the one written last. For every permutation of the record
  stream the final set has the same \<open>ID\<close> keys. When any two mappings resolved in the first
  pass under one key are equal, the final set is the same mapping from keys to entries for
  every permutation, and so is the sorted list that goes into the header. Two records with
  the same tokenized name and the same \<open>current_lb\<close> have the same mappings resolved,
  template by template.
\<close>

theorem first_pass_permutation:
  assumes "mset in_reads = mset in_reads'"
  shows "fst ` set (final_rgs_of h in_reads rgs p) = fst ` set (final_rgs_of h in_reads' rgs p) \<and>
         (value_identical (all_writes p (rg_to_lb_of h rgs p) rgs in_reads) \<longrightarrow>
            map_of (final_rgs_of h in_reads rgs p) = map_of (final_rgs_of h in_reads' rgs p) \<and>
            sorted_rgs (final_rgs_of h in_reads rgs p) = sorted_rgs (final_rgs_of h in_reads' rgs p)) \<and>
         (\<forall>rd rd'. get_flowcell_lane (query_name rd) = get_flowcell_lane (query_name rd') \<and>
             pass1_current_lb p (rg_to_lb_of h rgs p) rd = pass1_current_lb p (rg_to_lb_of h rgs p) rd' \<longrightarrow>
             pass1_writes p (rg_to_lb_of h rgs p) rgs rd = pass1_writes p (rg_to_lb_of h rgs p) rgs rd') \<and>
         all_writes p (rg_to_lb_of h rgs p) rgs in_reads =
           concat (map (\<lambda>rd. map (pass1_resolved (fst (get_flowcell_lane (query_name rd)))
                                       (snd (get_flowcell_lane (query_name rd)))
                                       (pass1_current_lb p (rg_to_lb_of h rgs p) rd)) rgs) in_reads) \<and>
         (\<forall>pre r post k.
             need_pass1 rgs p \<and>
             all_writes p (rg_to_lb_of h rgs p) rgs in_reads = pre @ r # post \<and>
             map_of r ''ID'' = Some k \<and> (\<forall>r' \<in> set post. map_of r' ''ID'' \<noteq> Some k) \<longrightarrow>
             map_of (final_rgs_of h in_reads rgs p) k = Some r)"
proof (intro conjI impI allI)
  show "fst ` set (final_rgs_of h in_reads rgs p) = fst ` set (final_rgs_of h in_reads' rgs p)"
    using assms by (rule final_keys_permutation)
next
  assume "value_identical (all_writes p (rg_to_lb_of h rgs p) rgs in_reads)"
  with assms show eq: "map_of (final_rgs_of h in_reads rgs p) = map_of (final_rgs_of h in_reads' rgs p)"
    by (rule final_map_permutation)
  then show "sorted_rgs (final_rgs_of h in_reads rgs p) = sorted_rgs (final_rgs_of h in_reads' rgs p)"
    by (rule final_sorted_permutation)
next
  fix rd rd'
  assume "get_flowcell_lane (query_name rd) = get_flowcell_lane (query_name rd') \<and>
     pass1_current_lb p (rg_to_lb_of h rgs p) rd = pass1_current_lb p (rg_to_lb_of h rgs p) rd'"
  then show "pass1_writes p (rg_to_lb_of h rgs p) rgs rd = pass1_writes p (rg_to_lb_of h rgs p) rgs rd'"
    by (elim conjE) (rule pass1_writes_same)
next
  show "all_writes p (rg_to_lb_of h rgs p) rgs in_reads =
           concat (map (\<lambda>rd. map (pass1_resolved (fst (get_flowcell_lane (query_name rd)))
                                       (snd (get_flowcell_lane (query_name rd)))
                                       (pass1_current_lb p (rg_to_lb_of h rgs p) rd)) rgs) in_reads)"
    by (rule all_writes_unfold)
next
  fix pre r post k
  assume "need_pass1 rgs p \<and>
             all_writes p (rg_to_lb_of h rgs p) rgs in_reads = pre @ r # post \<and>
             map_of r ''ID'' = Some k \<and> (\<forall>r' \<in> set post. map_of r' ''ID'' \<noteq> Some k)"
  then show "map_of (final_rgs_of h in_reads rgs p) k = Some r"
    by (elim conjE) (rule final_last_write)
qed

theorem first_pass_permutation_witness:
  "mset [\<lparr>query_name = ''a:b:FC1:L1'', tags = Map.empty, payload = 0\<rparr>,
         \<lparr>query_name = ''a:b:FC2:L1'', tags = Map.empty, payload = 0\<rparr>,
         \<lparr>query_name = ''c:d:FC1:L9'', tags = Map.empty, payload = 0\<rparr>]
     = mset [\<lparr>query_name = ''c:d:FC1:L9'', tags = Map.empty, payload = 0\<rparr>,
             \<lparr>query_name = ''a:b:FC2:L1'', tags = Map.empty, payload = 0\<rparr>,
             \<lparr>query_name = ''a:b:FC1:L1'', tags = Map.empty, payload = 0\<rparr>] \<and>
   all_writes False (rg_to_lb_of [] [[(''ID'', ''[FLOWCELL]''), (''SM'', ''s'')]] False)
      [[(''ID'', ''[FLOWCELL]''), (''SM'', ''s'')]]
      [\<lparr>query_name = ''a:b:FC1:L1'', tags = Map.empty, payload = 0\<rparr>,
       \<lparr>query_name = ''a:b:FC2:L1'', tags = Map.empty, payload = 0\<rparr>,
       \<lparr>query_name = ''c:d:FC1:L9'', tags = Map.empty, payload = 0\<rparr>]
     = [[(''ID'', ''FC1''), (''SM'', ''s'')], [(''ID'', ''FC2''), (''SM'', ''s'')],
        [(''ID'', ''FC1''), (''SM'', ''s'')]] \<and>
   value_identical (all_writes False (rg_to_lb_of [] [[(''ID'', ''[FLOWCELL]''), (''SM'', ''s'')]] False)
      [[(''ID'', ''[FLOWCELL]''), (''SM'', ''s'')]]
      [\<lparr>query_name = ''a:b:FC1:L1'', tags = Map.empty, payload = 0\<rparr>,
       \<lparr>query_name = ''a:b:FC2:L1'', tags = Map.empty, payload = 0\<rparr>,
       \<lparr>query_name = ''c:d:FC1:L9'', tags = Map.empty, payload = 0\<rparr>]) \<and>
   map_of (final_rgs_of []
      [\<lparr>query_name = ''a:b:FC1:L1'', tags = Map.empty, payload = 0\<rparr>,
       \<lparr>query_name = ''a:b:FC2:L1'', tags = Map.empty, payload = 0\<rparr>,
       \<lparr>query_name = ''c:d:FC1:L9'', tags = Map.empty, payload = 0\<rparr>]
      [[(''ID'', ''[FLOWCELL]''), (''SM'', ''s'')]] False)
   = map_of (final_rgs_of []
      [\<lparr>query_name = ''c:d:FC1:L9'', tags = Map.empty, payload = 0\<rparr>,
       \<lparr>query_name = ''a:b:FC2:L1'', tags = Map.empty, payload = 0\<rparr>,
       \<lparr>query_name = ''a:b:FC1:L1'', tags = Map.empty, payload = 0\<rparr>]
      [[(''ID'', ''[FLOWCELL]''), (''SM'', ''s'')]] False) \<and>
   sorted_rgs (final_rgs_of []
      [\<lparr>query_name = ''c:d:FC1:L9'', tags = Map.empty, payload = 0\<rparr>,
       \<lparr>query_name = ''a:b:FC2:L1'', tags = Map.empty, payload = 0\<rparr>,
       \<lparr>query_name = ''a:b:FC1:L1'', tags = Map.empty, payload = 0\<rparr>]
      [[(''ID'', ''[FLOWCELL]''), (''SM'', ''s'')]] False)
   = [[(''ID'', ''FC1''), (''SM'', ''s'')], [(''ID'', ''FC2''), (''SM'', ''s'')]] \<and>
   all_writes False (rg_to_lb_of [] [[(''ID'', ''x''), (''SM'', ''[FLOWCELL]'')]] False)
      [[(''ID'', ''x''), (''SM'', ''[FLOWCELL]'')]]
      [\<lparr>query_name = ''a:b:FC1:L1'', tags = Map.empty, payload = 0\<rparr>,
       \<lparr>query_name = ''a:b:FC2:L1'', tags = Map.empty, payload = 0\<rparr>]
     = [[(''ID'', ''x''), (''SM'', ''FC1'')], [(''ID'', ''x''), (''SM'', ''FC2'')]] \<and>
   map_of (final_rgs_of []
      [\<lparr>query_name = ''a:b:FC1:L1'', tags = Map.empty, payload = 0\<rparr>,
       \<lparr>query_name = ''a:b:FC2:L1'', tags = Map.empty, payload = 0\<rparr>]
      [[(''ID'', ''x''), (''SM'', ''[FLOWCELL]'')]] False) ''x''
     = Some [(''ID'', ''x''), (''SM'', ''FC2'')] \<and>
   map_of (final_rgs_of []
      [\<lparr>query_name = ''a:b:FC2:L1'', tags = Map.empty, payload = 0\<rparr>,
       \<lparr>query_name = ''a:b:FC1:L1'', tags = Map.empty, payload = 0\<rparr>]
      [[(''ID'', ''x''), (''SM'', ''[FLOWCELL]'')]] False) ''x''
     = Some [(''ID'', ''x''), (''SM'', ''FC1'')]"
proof -
  let ?r1 = "\<lparr>query_name = ''a:b:FC1:L1'', tags = Map.empty, payload = 0\<rparr>"
  let ?r2 = "\<lparr>query_name = ''a:b:FC2:L1'', tags = Map.empty, payload = 0\<rparr>"
  let ?r3 = "\<lparr>query_name = ''c:d:FC1:L9'', tags = Map.empty, payload = 0\<rparr>"
  let ?t = "[(''ID'', ''[FLOWCELL]''), (''SM'', ''s'')]"
  let ?u = "[(''ID'', ''x''), (''SM'', ''[FLOWCELL]'')]"
  let ?w1 = "[(''ID'', ''x''), (''SM'', ''FC1'')]"
  let ?w2 = "[(''ID'', ''x''), (''SM'', ''FC2'')]"
  have perm: "mset [?r1, ?r2, ?r3] = mset [?r3, ?r2, ?r1]" by simp
  have mt: "rg_to_lb_of [] [?t] False = []" by (simp add: rg_to_lb_of_def)
  have mu: "rg_to_lb_of [] [?u] False = []" by (simp add: rg_to_lb_of_def)
  have aw: "all_writes False (rg_to_lb_of [] [?t] False) [?t] [?r1, ?r2, ?r3]
      = [[(''ID'', ''FC1''), (''SM'', ''s'')], [(''ID'', ''FC2''), (''SM'', ''s'')],
         [(''ID'', ''FC1''), (''SM'', ''s'')]]"
    unfolding mt
    by (simp add: all_writes_def pass1_writes_def get_flowcell_lane_def pass1_resolved_def
        pass1_current_lb_def resolve_rg_def)
  have vi: "value_identical (all_writes False (rg_to_lb_of [] [?t] False) [?t] [?r1, ?r2, ?r3])"
    unfolding aw by (simp add: value_identical_def)
  note a = first_pass_permutation [OF perm, of "[]" "[?t]" False]
  note same = a [THEN conjunct2, THEN conjunct1, THEN mp, OF vi]
  have awr: "all_writes False (rg_to_lb_of [] [?t] False) [?t] [?r3, ?r2, ?r1]
      = [[(''ID'', ''FC1''), (''SM'', ''s'')], [(''ID'', ''FC2''), (''SM'', ''s'')],
         [(''ID'', ''FC1''), (''SM'', ''s'')]]"
    unfolding mt
    by (simp add: all_writes_def pass1_writes_def get_flowcell_lane_def pass1_resolved_def
        pass1_current_lb_def resolve_rg_def)
  have nt: "need_pass1 [?t] False" by (simp add: need_pass1_def placeholders_def)
  have fr: "final_rgs_of [] [?r3, ?r2, ?r1] [?t] False
      = [(''FC1'', [(''ID'', ''FC1''), (''SM'', ''s'')]), (''FC2'', [(''ID'', ''FC2''), (''SM'', ''s'')])]"
    unfolding final_rgs_of_writes using nt awr by (simp add: upsert_def)
  have srt: "sorted_rgs (final_rgs_of [] [?r3, ?r2, ?r1] [?t] False)
      = [[(''ID'', ''FC1''), (''SM'', ''s'')], [(''ID'', ''FC2''), (''SM'', ''s'')]]"
    unfolding fr by (simp add: sorted_rgs_def rg_key_def)
  have nu: "need_pass1 [?u] False" by (simp add: need_pass1_def placeholders_def)
  have p12: "mset [?r1, ?r2] = mset [?r2, ?r1]" by simp
  have p21: "mset [?r2, ?r1] = mset [?r1, ?r2]" by simp
  have au: "all_writes False (rg_to_lb_of [] [?u] False) [?u] [?r1, ?r2] = [?w1, ?w2]"
    unfolding mu
    by (simp add: all_writes_def pass1_writes_def get_flowcell_lane_def pass1_resolved_def
        pass1_current_lb_def resolve_rg_def)
  have au': "all_writes False (rg_to_lb_of [] [?u] False) [?u] [?r2, ?r1] = [?w2, ?w1]"
    unfolding mu
    by (simp add: all_writes_def pass1_writes_def get_flowcell_lane_def pass1_resolved_def
        pass1_current_lb_def resolve_rg_def)
  have s12: "all_writes False (rg_to_lb_of [] [?u] False) [?u] [?r1, ?r2] = [?w1] @ ?w2 # []"
    unfolding au by simp
  have s21: "all_writes False (rg_to_lb_of [] [?u] False) [?u] [?r2, ?r1] = [?w2] @ ?w1 # []"
    unfolding au' by simp
  have i1: "map_of ?w1 ''ID'' = Some ''x''" by simp
  have i2: "map_of ?w2 ''ID'' = Some ''x''" by simp
  have none: "\<forall>r' \<in> set ([] :: rg list). map_of r' ''ID'' \<noteq> Some ''x''" by simp
  have last12: "map_of (final_rgs_of [] [?r1, ?r2] [?u] False) ''x'' = Some ?w2"
    using first_pass_permutation [OF p12, of "[]" "[?u]" False, THEN conjunct2, THEN conjunct2,
        THEN conjunct2, THEN conjunct2, THEN spec, THEN spec, THEN spec, THEN spec, THEN mp,
        OF conjI, OF nu, OF conjI, OF s12, OF conjI, OF i2 none] .
  have last21: "map_of (final_rgs_of [] [?r2, ?r1] [?u] False) ''x'' = Some ?w1"
    using first_pass_permutation [OF p21, of "[]" "[?u]" False, THEN conjunct2, THEN conjunct2,
        THEN conjunct2, THEN conjunct2, THEN spec, THEN spec, THEN spec, THEN spec, THEN mp,
        OF conjI, OF nu, OF conjI, OF s21, OF conjI, OF i1 none] .
  from perm aw vi same [THEN conjunct1] srt au last12 last21 show ?thesis by (intro conjI)
qed

section \<open>The claims about the header and the counts\<close>

lemma sorted_sorted_rgs: "sorted (map rg_key (sorted_rgs f))"
  by (simp add: sorted_rgs_def)

lemma mset_sorted_rgs: "mset (sorted_rgs f) = mset (map snd f)"
  by (simp add: sorted_rgs_def)

lemma distinct_keys_sorted_rgs:
  assumes "distinct (map fst f)" "keyed_by_id f"
  shows "distinct (map rg_key (sorted_rgs f))"
proof -
  have "inj_on snd (set f)"
  proof (rule inj_onI)
    fix x y assume xy: "x \<in> set f" "y \<in> set f" "snd x = snd y"
    with assms(2) have "map_of (snd x) ''ID'' = Some (fst x)" "map_of (snd y) ''ID'' = Some (fst y)"
      by (auto simp: keyed_by_id_def)
    with xy(3) have "fst x = fst y" by simp
    with xy(3) show "x = y" by (simp add: prod_eq_iff)
  qed
  moreover have "distinct f" using assms(1) by (simp add: distinct_map)
  ultimately have "distinct (map snd f)" by (simp add: distinct_map)
  then have "distinct (sorted_rgs f)" by (simp add: sorted_rgs_def)
  moreover have "inj_on rg_key (set (sorted_rgs f))"
    using rg_key_inj [OF assms] by (simp add: sorted_rgs_def)
  ultimately show ?thesis by (simp add: distinct_map)
qed

lemma rg_key_explicit:
  "rg_key = (\<lambda>x. (case map_of x ''SM'' of Some v \<Rightarrow> v | None \<Rightarrow> '''',
                  case map_of x ''LB'' of Some v \<Rightarrow> v | None \<Rightarrow> '''',
                  case map_of x ''ID'' of Some v \<Rightarrow> v | None \<Rightarrow> ''''))"
  by (simp add: rg_key_def fun_eq_iff)

lemma less_triple:
  fixes a b c :: string
  shows "(a, b, c) < (a', b', c') \<longleftrightarrow> a < a' \<or> a = a' \<and> (b < b' \<or> b = b' \<and> c < c')"
  by (auto simp: less_prod_def less_eq_prod_def)

lemma sorted_rgs_pairwise:
  assumes "distinct (map fst f)" "keyed_by_id f" "i < j" "j < length (sorted_rgs f)"
  shows "rg_key (sorted_rgs f ! i) < rg_key (sorted_rgs f ! j)"
proof -
  have "sorted (map rg_key (sorted_rgs f))" by (rule sorted_sorted_rgs)
  moreover have "distinct (map rg_key (sorted_rgs f))"
    using assms(1,2) by (rule distinct_keys_sorted_rgs)
  ultimately have "sorted_wrt (<) (map rg_key (sorted_rgs f))"
    by (simp add: strict_sorted_iff)
  then have "map rg_key (sorted_rgs f) ! i < map rg_key (sorted_rgs f) ! j"
    using assms(3,4) by (simp add: sorted_wrt_iff_nth_less)
  then show ?thesis using assms(3,4) by simp
qed

text \<open>
  C4. The \<open>RG\<close> section of the header written is the list of the entries of the final set
  sorted by the tuple of the attributes \<open>SM\<close>, \<open>LB\<close> and \<open>ID\<close>, in this order, a missing
  attribute counting as the empty string: it holds exactly the values of the set, and of
  two entries the one that comes first has the smaller \<open>SM\<close>, or the same \<open>SM\<close> and the
  smaller \<open>LB\<close>, or the same \<open>SM\<close> and \<open>LB\<close> and the smaller \<open>ID\<close>. A final set with the
  same content built in any other order gives the same list.
\<close>

theorem header_rg_sorted:
  "(let f = final_rgs_of h rds rgs p;
        es = sorted_rgs f;
        SM = (\<lambda>x. case map_of x ''SM'' of Some v \<Rightarrow> v | None \<Rightarrow> '''');
        LB = (\<lambda>x. case map_of x ''LB'' of Some v \<Rightarrow> v | None \<Rightarrow> '''');
        ID = (\<lambda>x. case map_of x ''ID'' of Some v \<Rightarrow> v | None \<Rightarrow> '''')
    in map_of (out_header (process_bam h rds rgs p s)) ''RG'' = Some (Entries es) \<and>
       mset es = mset (map snd f) \<and>
       sorted (map rg_key es) \<and>
       distinct (map rg_key es) \<and>
       (\<forall>f'. distinct (map fst f') \<and> map_of f' = map_of f \<longrightarrow> sorted_rgs f' = es) \<and>
       (\<forall>x. rg_key x = (SM x, LB x, ID x)) \<and>
       sorted (map (\<lambda>x. (SM x, LB x, ID x)) es) \<and>
       (\<forall>i j. i < j \<and> j < length es \<longrightarrow>
          SM (es ! i) < SM (es ! j) \<or>
          SM (es ! i) = SM (es ! j) \<and>
            (LB (es ! i) < LB (es ! j) \<or>
             LB (es ! i) = LB (es ! j) \<and> ID (es ! i) < ID (es ! j))))"
proof -
  let ?f = "final_rgs_of h rds rgs p"
  let ?es = "sorted_rgs ?f"
  let ?SM = "\<lambda>x :: rg. case map_of x ''SM'' of Some v \<Rightarrow> v | None \<Rightarrow> ''''"
  let ?LB = "\<lambda>x :: rg. case map_of x ''LB'' of Some v \<Rightarrow> v | None \<Rightarrow> ''''"
  let ?ID = "\<lambda>x :: rg. case map_of x ''ID'' of Some v \<Rightarrow> v | None \<Rightarrow> ''''"
  have c1: "map_of (out_header (process_bam h rds rgs p s)) ''RG'' = Some (Entries ?es)"
    by (simp add: out_header_process_bam map_of_new_header)
  have c2: "mset ?es = mset (map snd ?f)" by (rule mset_sorted_rgs)
  have c3: "sorted (map rg_key ?es)" by (rule sorted_sorted_rgs)
  have c4: "distinct (map rg_key ?es)"
    using distinct_final_rgs_of keyed_final_rgs_of by (rule distinct_keys_sorted_rgs)
  have c5: "\<forall>f'. distinct (map fst f') \<and> map_of f' = map_of ?f \<longrightarrow> sorted_rgs f' = ?es"
  proof (intro allI impI, elim conjE)
    fix f' assume "distinct (map fst f')" "map_of f' = map_of ?f"
    with distinct_final_rgs_of keyed_final_rgs_of show "sorted_rgs f' = ?es"
      by (rule sorted_rgs_order_free)
  qed
  have c6: "\<forall>x. rg_key x = (?SM x, ?LB x, ?ID x)" by (simp add: rg_key_def)
  have c7: "sorted (map (\<lambda>x. (?SM x, ?LB x, ?ID x)) ?es)"
    using c3 unfolding rg_key_explicit .
  have c8: "\<forall>i j. i < j \<and> j < length ?es \<longrightarrow>
          ?SM (?es ! i) < ?SM (?es ! j) \<or>
          ?SM (?es ! i) = ?SM (?es ! j) \<and>
            (?LB (?es ! i) < ?LB (?es ! j) \<or>
             ?LB (?es ! i) = ?LB (?es ! j) \<and> ?ID (?es ! i) < ?ID (?es ! j))"
  proof (intro allI impI, elim conjE)
    fix i j assume "i < j" "j < length ?es"
    with distinct_final_rgs_of keyed_final_rgs_of
    have "rg_key (?es ! i) < rg_key (?es ! j)" by (rule sorted_rgs_pairwise)
    then show "?SM (?es ! i) < ?SM (?es ! j) \<or>
          ?SM (?es ! i) = ?SM (?es ! j) \<and>
            (?LB (?es ! i) < ?LB (?es ! j) \<or>
             ?LB (?es ! i) = ?LB (?es ! j) \<and> ?ID (?es ! i) < ?ID (?es ! j))"
      unfolding rg_key_explicit less_triple .
  qed
  from c1 c2 c3 c4 c5 c6 c7 c8 show ?thesis unfolding Let_def by (intro conjI)
qed

theorem header_rg_sorted_witness:
  "final_rgs_of [] []
      [[(''ID'', ''b''), (''LB'', ''y''), (''SM'', ''s'')],
       [(''ID'', ''a''), (''LB'', ''z''), (''SM'', ''s'')], [(''ID'', ''c'')]] False
     = [(''b'', [(''ID'', ''b''), (''LB'', ''y''), (''SM'', ''s'')]),
        (''a'', [(''ID'', ''a''), (''LB'', ''z''), (''SM'', ''s'')]),
        (''c'', [(''ID'', ''c'')])] \<and>
   map_of (out_header (process_bam [] []
      [[(''ID'', ''b''), (''LB'', ''y''), (''SM'', ''s'')],
       [(''ID'', ''a''), (''LB'', ''z''), (''SM'', ''s'')], [(''ID'', ''c'')]] False False)) ''RG''
     = Some (Entries [[(''ID'', ''c'')], [(''ID'', ''b''), (''LB'', ''y''), (''SM'', ''s'')],
                      [(''ID'', ''a''), (''LB'', ''z''), (''SM'', ''s'')]]) \<and>
   sorted_rgs [(''c'', [(''ID'', ''c'')]),
               (''a'', [(''ID'', ''a''), (''LB'', ''z''), (''SM'', ''s'')]),
               (''b'', [(''ID'', ''b''), (''LB'', ''y''), (''SM'', ''s'')])]
     = [[(''ID'', ''c'')], [(''ID'', ''b''), (''LB'', ''y''), (''SM'', ''s'')],
        [(''ID'', ''a''), (''LB'', ''z''), (''SM'', ''s'')]] \<and>
   rg_key [(''ID'', ''b''), (''LB'', ''y''), (''SM'', ''s'')] = (''s'', ''y'', ''b'') \<and>
   rg_key [(''ID'', ''c'')] = ('''', '''', ''c'') \<and>
   (''s'', ''y'', ''b'') < (''s'', ''z'', ''a'')"
proof -
  let ?b = "[(''ID'', ''b''), (''LB'', ''y''), (''SM'', ''s'')]"
  let ?a = "[(''ID'', ''a''), (''LB'', ''z''), (''SM'', ''s'')]"
  let ?c = "[(''ID'', ''c'')]"
  let ?rgs = "[?b, ?a, ?c]"
  let ?f' = "[(''c'', ?c), (''a'', ?a), (''b'', ?b)]"
  let ?es = "[?c, ?b, ?a]"
  have f: "final_rgs_of [] [] ?rgs False = [(''b'', ?b), (''a'', ?a), (''c'', ?c)]"
    by (simp add: final_rgs_of_def need_pass1_def placeholders_def upsert_def)
  have s: "sorted_rgs (final_rgs_of [] [] ?rgs False) = ?es"
    unfolding f by (simp add: sorted_rgs_def rg_key_def)
  have d1: "distinct (map fst ?f')" by simp
  have d2: "map_of ?f' = map_of (final_rgs_of [] [] ?rgs False)"
    unfolding f by (subst map_of_inject_set) auto
  note main = header_rg_sorted [of "[]" "[]" ?rgs False False, unfolded Let_def]
  have hd: "map_of (out_header (process_bam [] [] ?rgs False False)) ''RG''
      = Some (Entries (sorted_rgs (final_rgs_of [] [] ?rgs False)))"
    using main [THEN conjunct1] .
  have o: "sorted_rgs ?f' = sorted_rgs (final_rgs_of [] [] ?rgs False)"
    using main [THEN conjunct2, THEN conjunct2, THEN conjunct2, THEN conjunct2, THEN conjunct1,
        THEN spec, THEN mp, OF conjI, OF d1 d2] .
  note key = main [THEN conjunct2, THEN conjunct2, THEN conjunct2, THEN conjunct2, THEN conjunct2,
        THEN conjunct1]
  have kb: "rg_key ?b = (''s'', ''y'', ''b'')" using key [THEN spec, of ?b] by simp
  have kc: "rg_key ?c = ('''', '''', ''c'')" using key [THEN spec, of ?c] by simp
  have lt: "(''s'', ''y'', ''b'') < (''s'', ''z'', ''a'')" by simp
  from f hd [unfolded s] o [unfolded s] kb kc lt show ?thesis by (intro conjI)
qed

lemma bucket_explicit:
  "bucket = (\<lambda>rd. case tags rd ''RG'' of Some g \<Rightarrow> g | None \<Rightarrow> ''None'')"
  by (simp add: bucket_def fun_eq_iff)

lemma map_of_counts:
  assumes "fst ` set c = b ` set rs"
    and "\<And>k. count_of c k = length (filter (\<lambda>rd. b rd = k) rs)"
  shows "map_of c k =
     (if length (filter (\<lambda>rd. b rd = k) rs) = 0 then None
      else Some (length (filter (\<lambda>rd. b rd = k) rs)))"
proof (cases "map_of c k")
  case None
  then have "k \<notin> b ` set rs" using assms(1) by (simp add: map_of_eq_None_iff)
  then have "filter (\<lambda>rd. b rd = k) rs = []" by (auto simp: filter_empty_conv)
  with None show ?thesis by simp
next
  case (Some n)
  then have "k \<in> fst ` set c" by (metis domI dom_map_of_conv_image_fst)
  then have "k \<in> b ` set rs" using assms(1) by simp
  then have ne: "filter (\<lambda>rd. b rd = k) rs \<noteq> []" by (auto simp: filter_empty_conv)
  from Some have "count_of c k = n" by (simp add: count_of_def)
  with assms(2) have "n = length (filter (\<lambda>rd. b rd = k) rs)" by simp
  with Some ne show ?thesis by simp
qed

text \<open>
  C5. After the output pass the counts add up to the number of records of the source. One
  record is written for each record of the source, in order. The count printed for an
  identifier is the number of records written whose \<open>RG\<close> tag, as written, is that
  identifier, a record written without an \<open>RG\<close> tag counting for \<open>None\<close>; an identifier
  that no record written counts for has no line. So each record adds one to exactly one
  count.
\<close>

theorem counts_conserved:
  "(let out = process_bam h rds rgs p s;
        tag_or_None = (\<lambda>rd. case tags rd ''RG'' of Some g \<Rightarrow> g | None \<Rightarrow> ''None'')
    in sum_list (map snd (out_counts out)) = length rds \<and>
       out_reads out = map (pass2_assigned (need_pass1 rgs p) p (rg_to_lb_of h rgs p) rgs) rds \<and>
       length (out_reads out) = length rds \<and>
       distinct (map fst (out_counts out)) \<and>
       fst ` set (out_counts out) = bucket ` set (out_reads out) \<and>
       (\<forall>k. count_of (out_counts out) k = length (filter (\<lambda>rd. bucket rd = k) (out_reads out))) \<and>
       (\<forall>rd. bucket rd = tag_or_None rd) \<and>
       (\<forall>k. map_of (out_counts out) k =
            (if length (filter (\<lambda>rd. tag_or_None rd = k) (out_reads out)) = 0 then None
             else Some (length (filter (\<lambda>rd. tag_or_None rd = k) (out_reads out))))) \<and>
       count_of (out_counts out) ''None'' =
         length (filter (\<lambda>rd. tags rd ''RG'' = None \<or> tags rd ''RG'' = Some ''None'')
                   (out_reads out)))"
proof -
  let ?a = "pass2_assigned (need_pass1 rgs p) p (rg_to_lb_of h rgs p) rgs"
  let ?out = "process_bam h rds rgs p s"
  let ?t = "\<lambda>rd :: read. case tags rd ''RG'' of Some g \<Rightarrow> g | None \<Rightarrow> ''None''"
  have r: "out_reads ?out = map ?a rds"
    by (rule out_reads_process_bam)
  have c: "out_counts ?out = fold increment (map (\<lambda>rd. bucket (?a rd)) rds) []"
    by (rule out_counts_process_bam)
  have c1: "sum_list (map snd (out_counts ?out)) = length rds"
    unfolding c by (simp add: sum_fold_increment)
  have c3: "length (out_reads ?out) = length rds" unfolding r by simp
  have c4: "distinct (map fst (out_counts ?out))"
    unfolding c by (simp add: distinct_fold_increment)
  have c5: "fst ` set (out_counts ?out) = bucket ` set (out_reads ?out)"
    unfolding c r by (simp add: keys_fold_increment image_image)
  have cnt: "count_of (out_counts ?out) k
      = length (filter (\<lambda>rd. bucket rd = k) (out_reads ?out))" for k
  proof -
    have "count_of [] k = 0" by (simp add: count_of_def)
    then show ?thesis
      unfolding c r by (simp add: count_of_fold_increment filter_map comp_def)
  qed
  then have c6: "\<forall>k. count_of (out_counts ?out) k
      = length (filter (\<lambda>rd. bucket rd = k) (out_reads ?out))" by (rule allI)
  have c7: "\<forall>rd. bucket rd = ?t rd" by (simp add: bucket_def)
  have c8: "\<forall>k. map_of (out_counts ?out) k =
            (if length (filter (\<lambda>rd. ?t rd = k) (out_reads ?out)) = 0 then None
             else Some (length (filter (\<lambda>rd. ?t rd = k) (out_reads ?out))))"
  proof
    fix k
    show "map_of (out_counts ?out) k =
            (if length (filter (\<lambda>rd. ?t rd = k) (out_reads ?out)) = 0 then None
             else Some (length (filter (\<lambda>rd. ?t rd = k) (out_reads ?out))))"
      using map_of_counts [of "out_counts ?out" bucket "out_reads ?out" k, OF c5 cnt]
      unfolding bucket_explicit .
  qed
  have "(\<lambda>rd :: read. bucket rd = ''None'')
      = (\<lambda>rd. tags rd ''RG'' = None \<or> tags rd ''RG'' = Some ''None'')"
    by (auto simp: bucket_def fun_eq_iff split: option.splits)
  with cnt [of "''None''"] have c9: "count_of (out_counts ?out) ''None'' =
         length (filter (\<lambda>rd. tags rd ''RG'' = None \<or> tags rd ''RG'' = Some ''None'')
                   (out_reads ?out))" by simp
  from c1 r c3 c4 c5 c6 c7 c8 c9 show ?thesis unfolding Let_def by (intro conjI)
qed

theorem counts_conserved_witness:
  "out_reads (process_bam []
      [\<lparr>query_name = ''readA'', tags = [''LB'' \<mapsto> ''lib1''], payload = 0\<rparr>,
       \<lparr>query_name = ''readB'', tags = Map.empty, payload = 0\<rparr>,
       \<lparr>query_name = ''readC'', tags = [''RG'' \<mapsto> ''old''], payload = 0\<rparr>]
      [[(''SM'', ''s'')]] True False)
     = [\<lparr>query_name = ''readA'', tags = [''LB'' \<mapsto> ''lib1'', ''RG'' \<mapsto> ''lib1''], payload = 0\<rparr>,
        \<lparr>query_name = ''readB'', tags = Map.empty, payload = 0\<rparr>,
        \<lparr>query_name = ''readC'', tags = [''RG'' \<mapsto> ''old''], payload = 0\<rparr>] \<and>
   out_counts (process_bam []
      [\<lparr>query_name = ''readA'', tags = [''LB'' \<mapsto> ''lib1''], payload = 0\<rparr>,
       \<lparr>query_name = ''readB'', tags = Map.empty, payload = 0\<rparr>,
       \<lparr>query_name = ''readC'', tags = [''RG'' \<mapsto> ''old''], payload = 0\<rparr>]
      [[(''SM'', ''s'')]] True False)
     = [(''lib1'', 1), (''None'', 1), (''old'', 1)] \<and>
   sum_list (map snd (out_counts (process_bam []
      [\<lparr>query_name = ''readA'', tags = [''LB'' \<mapsto> ''lib1''], payload = 0\<rparr>,
       \<lparr>query_name = ''readB'', tags = Map.empty, payload = 0\<rparr>,
       \<lparr>query_name = ''readC'', tags = [''RG'' \<mapsto> ''old''], payload = 0\<rparr>]
      [[(''SM'', ''s'')]] True False))) = 3 \<and>
   map_of (out_counts (process_bam []
      [\<lparr>query_name = ''readA'', tags = [''LB'' \<mapsto> ''lib1''], payload = 0\<rparr>,
       \<lparr>query_name = ''readB'', tags = Map.empty, payload = 0\<rparr>,
       \<lparr>query_name = ''readC'', tags = [''RG'' \<mapsto> ''old''], payload = 0\<rparr>]
      [[(''SM'', ''s'')]] True False)) ''None'' = Some 1 \<and>
   bucket \<lparr>query_name = ''readB'', tags = Map.empty, payload = 0\<rparr> = ''None''"
proof -
  let ?r1 = "\<lparr>query_name = ''readA'', tags = [''LB'' \<mapsto> ''lib1''], payload = 0\<rparr>"
  let ?r1' = "\<lparr>query_name = ''readA'', tags = [''LB'' \<mapsto> ''lib1'', ''RG'' \<mapsto> ''lib1''], payload = 0\<rparr>"
  let ?r2 = "\<lparr>query_name = ''readB'', tags = Map.empty, payload = 0\<rparr>"
  let ?r3 = "\<lparr>query_name = ''readC'', tags = [''RG'' \<mapsto> ''old''], payload = 0\<rparr>"
  let ?rgs = "[[(''SM'', ''s'')]]"
  let ?out = "process_bam [] [?r1, ?r2, ?r3] ?rgs True False"
  have np: "need_pass1 ?rgs True = True" by (simp add: need_pass1_def)
  have m: "rg_to_lb_of [] ?rgs True = []"
    by (simp add: rg_to_lb_of_def build_rg_to_lb_def header_rg_def)
  have a1: "pass2_assigned True True [] ?rgs ?r1 = ?r1'"
    by (simp add: pass2_assigned_def pass2_rg_id_def pass2_resolved_def get_flowcell_lane_def
        resolve_rg_def assign_def set_tag_def)
  have a2: "pass2_assigned True True [] ?rgs ?r2 = ?r2"
    by (simp add: pass2_assigned_def pass2_rg_id_def pass2_resolved_def get_flowcell_lane_def
        resolve_rg_def assign_def set_tag_def)
  have a3: "pass2_assigned True True [] ?rgs ?r3 = ?r3"
    by (simp add: pass2_assigned_def pass2_rg_id_def pass2_resolved_def get_flowcell_lane_def
        resolve_rg_def assign_def set_tag_def)
  note main = counts_conserved [of "[]" "[?r1, ?r2, ?r3]" ?rgs True False, unfolded Let_def]
  have rs: "out_reads ?out = [?r1', ?r2, ?r3]"
    using main [THEN conjunct2, THEN conjunct1] unfolding np m by (simp add: a1 a2 a3)
  have sum: "sum_list (map snd (out_counts ?out)) = 3"
    using main [THEN conjunct1] by simp
  have b2: "bucket ?r2 = ''None''"
    using main [THEN conjunct2, THEN conjunct2, THEN conjunct2, THEN conjunct2, THEN conjunct2,
        THEN conjunct2, THEN conjunct1, THEN spec, of ?r2] by simp
  have none: "map_of (out_counts ?out) ''None'' = Some 1"
    using main [THEN conjunct2, THEN conjunct2, THEN conjunct2, THEN conjunct2, THEN conjunct2,
        THEN conjunct2, THEN conjunct2, THEN conjunct1, THEN spec, of "''None''"]
    unfolding rs by simp
  have c: "out_counts ?out = [(''lib1'', 1), (''None'', 1), (''old'', 1)]"
    unfolding out_counts_process_bam np m
    by (simp add: a1 a2 a3 bucket_def increment_def)
  from rs c sum none b2 show ?thesis by (intro conjI)
qed

text \<open>
  C7. In the header written, the \<open>RG\<close> section is the sorted final set; the \<open>PG\<close> section is
  absent when stripping is asked for and is the one of the input otherwise; every other
  section is the one of the input, and these sections come in the order of the input.
\<close>

theorem header_frame:
  "(let out = out_header (process_bam h rds rgs p s)
    in map_of out ''RG'' = Some (Entries (sorted_rgs (final_rgs_of h rds rgs p))) \<and>
       map_of out ''PG'' = (if s then None else map_of h ''PG'') \<and>
       (\<forall>k. k \<noteq> ''RG'' \<and> k \<noteq> ''PG'' \<longrightarrow> map_of out k = map_of h k) \<and>
       filter (\<lambda>(k, v). k \<noteq> ''RG'' \<and> k \<noteq> ''PG'') out
         = filter (\<lambda>(k, v). k \<noteq> ''RG'' \<and> k \<noteq> ''PG'') h \<and>
       (distinct (map fst h) \<longrightarrow> distinct (map fst out)))"
  by (simp add: Let_def out_header_process_bam map_of_new_header others_new_header
      distinct_new_header)

theorem header_frame_witness:
  "out_header (process_bam
      [(''HD'', Fields [(''VN'', ''1.6'')]), (''SQ'', Entries [[(''SN'', ''chr1'')]]),
       (''RG'', Entries [[(''ID'', ''old'')]]), (''PG'', Entries [[(''ID'', ''bwa'')]]),
       (''CO'', Comments [''note''])]
      [] [[(''ID'', ''a'')]] False True)
   = [(''HD'', Fields [(''VN'', ''1.6'')]), (''SQ'', Entries [[(''SN'', ''chr1'')]]),
      (''RG'', Entries [[(''ID'', ''a'')]]), (''CO'', Comments [''note''])] \<and>
   map_of (out_header (process_bam
      [(''HD'', Fields [(''VN'', ''1.6'')]), (''SQ'', Entries [[(''SN'', ''chr1'')]]),
       (''RG'', Entries [[(''ID'', ''old'')]]), (''PG'', Entries [[(''ID'', ''bwa'')]]),
       (''CO'', Comments [''note''])]
      [] [[(''ID'', ''a'')]] False True)) ''SQ'' = Some (Entries [[(''SN'', ''chr1'')]]) \<and>
   map_of (out_header (process_bam
      [(''HD'', Fields [(''VN'', ''1.6'')]), (''SQ'', Entries [[(''SN'', ''chr1'')]]),
       (''RG'', Entries [[(''ID'', ''old'')]]), (''PG'', Entries [[(''ID'', ''bwa'')]]),
       (''CO'', Comments [''note''])]
      [] [[(''ID'', ''a'')]] False True)) ''PG'' = None \<and>
   distinct (map fst (out_header (process_bam
      [(''HD'', Fields [(''VN'', ''1.6'')]), (''SQ'', Entries [[(''SN'', ''chr1'')]]),
       (''RG'', Entries [[(''ID'', ''old'')]]), (''PG'', Entries [[(''ID'', ''bwa'')]]),
       (''CO'', Comments [''note''])]
      [] [[(''ID'', ''a'')]] False True)))"
proof -
  let ?h = "[(''HD'', Fields [(''VN'', ''1.6'')]), (''SQ'', Entries [[(''SN'', ''chr1'')]]),
       (''RG'', Entries [[(''ID'', ''old'')]]), (''PG'', Entries [[(''ID'', ''bwa'')]]),
       (''CO'', Comments [''note''])]"
  let ?out = "out_header (process_bam ?h [] [[(''ID'', ''a'')]] False True)"
  have f: "final_rgs_of ?h [] [[(''ID'', ''a'')]] False = [(''a'', [(''ID'', ''a'')])]"
    by (simp add: final_rgs_of_def need_pass1_def placeholders_def upsert_def)
  have e: "?out = [(''HD'', Fields [(''VN'', ''1.6'')]), (''SQ'', Entries [[(''SN'', ''chr1'')]]),
      (''RG'', Entries [[(''ID'', ''a'')]]), (''CO'', Comments [''note''])]"
    unfolding out_header_process_bam f
    by (simp add: new_header_def sorted_rgs_def AList.delete_eq)
  have d: "distinct (map fst ?h)" by simp
  have k: "''SQ'' \<noteq> ''RG'' \<and> ''SQ'' \<noteq> ''PG''" by simp
  note hf = header_frame [of ?h "[]" "[[(''ID'', ''a'')]]" False True, unfolded Let_def]
  have pg: "map_of ?out ''PG'' = None"
    using hf [THEN conjunct2, THEN conjunct1] by (simp only: if_True)
  have sq: "map_of ?out ''SQ'' = map_of ?h ''SQ''"
    using hf [THEN conjunct2, THEN conjunct2, THEN conjunct1, THEN spec, of "''SQ''"] k
    by (rule mp)
  have di: "distinct (map fst ?out)"
    using hf [THEN conjunct2, THEN conjunct2, THEN conjunct2, THEN conjunct2] d by (rule mp)
  have "map_of ?h ''SQ'' = Some (Entries [[(''SN'', ''chr1'')]])" by simp
  with sq have sq': "map_of ?out ''SQ'' = Some (Entries [[(''SN'', ''chr1'')]])" by (rule trans)
  from e pg sq' di show ?thesis by (intro conjI)
qed

section \<open>The claims about the assignment\<close>

lemma pass2_resolved_first:
  "pass2_resolved True p m (t # ts) rd =
     (case get_flowcell_lane (query_name rd) of
        (fc, lane) \<Rightarrow> pass1_resolved fc lane (pass1_current_lb p m rd) t)"
  by (simp add: pass2_resolved_def pass1_resolved_def pass1_current_lb_def Let_def
      split: prod.splits)

lemma pass1_writes_first:
  "pass1_writes p m (t # ts) rd =
     (case get_flowcell_lane (query_name rd) of
        (fc, lane) \<Rightarrow> pass1_resolved fc lane (pass1_current_lb p m rd) t) #
     pass1_writes p m ts rd"
  by (simp add: pass1_writes_def split: prod.splits)

lemma writes_registered:
  assumes "need_pass1 rgs p" "rd \<in> set rds"
    and "r \<in> set (pass1_writes p (rg_to_lb_of h rgs p) rgs rd)" "map_of r ''ID'' = Some i"
  shows "i \<in> fst ` set (final_rgs_of h rds rgs p)"
proof -
  have "r \<in> set (all_writes p (rg_to_lb_of h rgs p) rgs rds)"
    using assms(2,3) by (auto simp: all_writes_def)
  then have "i \<in> fst ` set (fold upsert (all_writes p (rg_to_lb_of h rgs p) rgs rds) [])"
    using assms(4) unfolding keys_fold_upsert by blast
  with assms(1) show ?thesis by (simp only: final_rgs_of_writes if_True)
qed

text \<open>
  C2. When a first pass is needed and there is a first template, the mapping the output
  pass resolves for a record is the mapping the first pass resolves for the first template
  and that record (the head of what the first pass resolves for it), and the candidate
  identifier is the \<open>ID\<close> of that mapping: the name is tokenized, \<open>current_lb\<close> is derived
  and \<open>LB\<close> and \<open>ID\<close> are rewritten in the same way in both passes. For a record of the
  stream, a candidate identifier that exists is a key of the final set.
\<close>

theorem pass2_mirrors_pass1:
  assumes "need_pass1 rgs p" and "rgs = t # ts"
  shows "(let m = rg_to_lb_of h rgs p;
              first = (case get_flowcell_lane (query_name rd) of
                         (fc, lane) \<Rightarrow> pass1_resolved fc lane (pass1_current_lb p m rd) t)
          in hd (pass1_writes p m rgs rd) = first \<and>
             pass2_resolved (need_pass1 rgs p) p m rgs rd = first \<and>
             pass2_rg_id (need_pass1 rgs p) p m rgs rd = map_of first ''ID'' \<and>
             (rd \<in> set rds \<longrightarrow>
                (\<forall>i. map_of first ''ID'' = Some i \<longrightarrow> i \<in> fst ` set (final_rgs_of h rds rgs p))))"
proof -
  let ?m = "rg_to_lb_of h rgs p"
  let ?first = "case get_flowcell_lane (query_name rd) of
                  (fc, lane) \<Rightarrow> pass1_resolved fc lane (pass1_current_lb p ?m rd) t"
  have w: "pass1_writes p ?m rgs rd = ?first # pass1_writes p ?m ts rd"
    unfolding assms(2) by (rule pass1_writes_first)
  have n: "need_pass1 rgs p = True" using assms(1) by simp
  have r: "pass2_resolved (need_pass1 rgs p) p ?m rgs rd = ?first"
    unfolding n unfolding assms(2) by (rule pass2_resolved_first)
  have i: "pass2_rg_id (need_pass1 rgs p) p ?m rgs rd = map_of ?first ''ID''"
    unfolding pass2_rg_id_def r using assms(2) by simp
  have reg: "i \<in> fst ` set (final_rgs_of h rds rgs p)"
    if "rd \<in> set rds" "map_of ?first ''ID'' = Some i" for i
  proof -
    have "?first \<in> set (pass1_writes p ?m rgs rd)" unfolding w by simp
    with assms(1) that(1) show ?thesis using that(2) by (rule writes_registered)
  qed
  have h: "hd (pass1_writes p ?m rgs rd) = ?first" unfolding w by simp
  from h r i reg show ?thesis unfolding Let_def by (intro conjI impI allI)
qed

theorem pass2_mirrors_pass1_witness:
  "need_pass1 [[(''ID'', ''[FLOWCELL]''), (''PU'', ''[LANE]'')], [(''ID'', ''other'')]] True \<and>
   hd (pass1_writes True
         (rg_to_lb_of [(''RG'', Entries [[(''ID'', ''rg1''), (''LB'', ''libX'')]])]
            [[(''ID'', ''[FLOWCELL]''), (''PU'', ''[LANE]'')], [(''ID'', ''other'')]] True)
         [[(''ID'', ''[FLOWCELL]''), (''PU'', ''[LANE]'')], [(''ID'', ''other'')]]
         \<lparr>query_name = ''a:b:FC1:L1'', tags = [''RG'' \<mapsto> ''rg1''], payload = 0\<rparr>)
     = [(''ID'', ''FC1.libX''), (''PU'', ''L1''), (''LB'', ''libX'')] \<and>
   pass2_rg_id (need_pass1 [[(''ID'', ''[FLOWCELL]''), (''PU'', ''[LANE]'')], [(''ID'', ''other'')]] True) True
         (rg_to_lb_of [(''RG'', Entries [[(''ID'', ''rg1''), (''LB'', ''libX'')]])]
            [[(''ID'', ''[FLOWCELL]''), (''PU'', ''[LANE]'')], [(''ID'', ''other'')]] True)
         [[(''ID'', ''[FLOWCELL]''), (''PU'', ''[LANE]'')], [(''ID'', ''other'')]]
         \<lparr>query_name = ''a:b:FC1:L1'', tags = [''RG'' \<mapsto> ''rg1''], payload = 0\<rparr>
     = Some ''FC1.libX'' \<and>
   ''FC1.libX'' \<in> fst ` set (final_rgs_of [(''RG'', Entries [[(''ID'', ''rg1''), (''LB'', ''libX'')]])]
         [\<lparr>query_name = ''a:b:FC1:L1'', tags = [''RG'' \<mapsto> ''rg1''], payload = 0\<rparr>]
         [[(''ID'', ''[FLOWCELL]''), (''PU'', ''[LANE]'')], [(''ID'', ''other'')]] True)"
proof -
  let ?h = "[(''RG'', Entries [[(''ID'', ''rg1''), (''LB'', ''libX'')]])]"
  let ?t = "[(''ID'', ''[FLOWCELL]''), (''PU'', ''[LANE]'')]"
  let ?ts = "[[(''ID'', ''other'')]]"
  let ?rd = "\<lparr>query_name = ''a:b:FC1:L1'', tags = [''RG'' \<mapsto> ''rg1''], payload = 0\<rparr>"
  let ?m = "rg_to_lb_of ?h (?t # ?ts) True"
  let ?first = "[(''ID'', ''FC1.libX''), (''PU'', ''L1''), (''LB'', ''libX'')]"
  have n: "need_pass1 (?t # ?ts) True" by (simp add: need_pass1_def)
  have m: "?m = [(''rg1'', ''libX'')]"
    by (simp add: rg_to_lb_of_def need_pass1_def build_rg_to_lb_def header_rg_def index_entry_def)
  have f: "(case get_flowcell_lane (query_name ?rd) of
              (fc, lane) \<Rightarrow> pass1_resolved fc lane (pass1_current_lb True ?m ?rd) ?t) = ?first"
    unfolding m
    by (simp add: get_flowcell_lane_def pass1_resolved_def pass1_current_lb_def resolve_rg_def)
  have id: "map_of ?first ''ID'' = Some ''FC1.libX''" by simp
  have rd: "?rd \<in> set [?rd]" by simp
  note main = pass2_mirrors_pass1 [OF n refl, of ?h ?rd "[?rd]", unfolded Let_def f]
  have "''FC1.libX'' \<in> fst ` set (final_rgs_of ?h [?rd] (?t # ?ts) True)"
    using main [THEN conjunct2, THEN conjunct2, THEN conjunct2, THEN mp, OF rd, THEN spec,
        THEN mp, OF id] .
  moreover have "pass2_rg_id (need_pass1 (?t # ?ts) True) True ?m (?t # ?ts) ?rd = Some ''FC1.libX''"
    using main [THEN conjunct2, THEN conjunct2, THEN conjunct1] id by (rule trans)
  moreover have "hd (pass1_writes True ?m (?t # ?ts) ?rd) = ?first"
    using main [THEN conjunct1] .
  ultimately show ?thesis using n by (intro conjI)
qed

lemma map_of_index_entry:
  "map_of (index_entry e m) k =
     (if map_of e ''ID'' = Some k \<and> map_of e ''LB'' \<noteq> None then map_of e ''LB'' else map_of m k)"
  by (auto simp: index_entry_def update_conv' split: option.splits)

lemma map_of_fold_index_in:
  "map_of (fold index_entry es m) k = Some l \<Longrightarrow>
     (\<exists>e \<in> set es. map_of e ''ID'' = Some k \<and> map_of e ''LB'' = Some l) \<or> map_of m k = Some l"
proof (induction es arbitrary: m)
  case Nil
  then show ?case by simp
next
  case (Cons a es)
  from Cons.prems have "map_of (fold index_entry es (index_entry a m)) k = Some l" by simp
  from Cons.IH [OF this] show ?case
    by (auto simp: map_of_index_entry split: if_splits)
qed

lemma map_of_fold_index_keep:
  "map_of m k \<noteq> None \<Longrightarrow> map_of (fold index_entry es m) k \<noteq> None"
  by (induction es arbitrary: m) (auto simp: map_of_index_entry)

lemma map_of_fold_index_defined:
  "e \<in> set es \<Longrightarrow> map_of e ''ID'' = Some k \<Longrightarrow> map_of e ''LB'' = Some l \<Longrightarrow>
     map_of (fold index_entry es m) k \<noteq> None"
proof (induction es arbitrary: m)
  case Nil
  then show ?case by simp
next
  case (Cons a es)
  show ?case
  proof (cases "a = e")
    case True
    with Cons.prems have "map_of (index_entry a m) k \<noteq> None"
      by (simp add: map_of_index_entry)
    then show ?thesis using map_of_fold_index_keep by simp
  next
    case False
    with Cons.prems have "e \<in> set es" by simp
    from Cons.IH [OF this Cons.prems(2,3)] show ?thesis by simp
  qed
qed

lemma rg_to_lb_lookup:
  assumes "e \<in> set (header_rg h)" "map_of e ''ID'' = Some k" "map_of e ''LB'' = Some l"
    and "\<forall>e' \<in> set (header_rg h). map_of e' ''ID'' = Some k \<longrightarrow> e' = e"
  shows "map_of (build_rg_to_lb h) k = Some l"
proof -
  have "map_of (fold index_entry (header_rg h) []) k \<noteq> None"
    using assms(1-3) by (rule map_of_fold_index_defined)
  then obtain l' where l': "map_of (fold index_entry (header_rg h) []) k = Some l'" by blast
  from map_of_fold_index_in [OF l'] obtain e' where
    "e' \<in> set (header_rg h)" "map_of e' ''ID'' = Some k" "map_of e' ''LB'' = Some l'" by auto
  with assms(3,4) have "l' = l" by auto
  with l' show ?thesis by (simp add: build_rg_to_lb_def)
qed

lemma map_of_fold_upsert_unique:
  assumes "r \<in> set ws" "map_of r ''ID'' = Some k"
    and "\<forall>r' \<in> set ws. map_of r' ''ID'' = Some k \<longrightarrow> r' = r"
  shows "map_of (fold upsert ws []) k = Some r"
proof -
  have "k \<in> fst ` set (fold upsert ws [])"
    using assms(1,2) unfolding keys_fold_upsert by blast
  then obtain v where v: "map_of (fold upsert ws []) k = Some v"
    by (metis domD dom_map_of_conv_image_fst)
  from map_of_fold_upsert_in [OF v] have "v \<in> set ws \<and> map_of v ''ID'' = Some k" by simp
  with assms(3) have "v = r" by blast
  with v show ?thesis by simp
qed

lemma resolve_rg_new: "resolve_rg [(''ID'', ''new'')] fc lane = [(''ID'', ''new'')]"
  by (simp add: resolve_rg_def)

lemma pass1_resolved_new:
  "pass1_resolved fc lane clb [(''ID'', ''new'')] =
     (case clb of None \<Rightarrow> [(''ID'', ''new'')]
      | Some lb \<Rightarrow> [(''ID'', ''new.'' @ lb), (''LB'', lb)])"
  by (simp add: pass1_resolved_def resolve_rg_new split: option.splits)

lemma writes_new_unique:
  assumes "r \<in> set (all_writes p m [[(''ID'', ''new'')]] rds)"
    and "map_of r ''ID'' = Some ''new.libX''"
  shows "r = [(''ID'', ''new.libX''), (''LB'', ''libX'')]"
proof -
  from assms(1) obtain fc lane clb where "r = pass1_resolved fc lane clb [(''ID'', ''new'')]"
    by (auto simp: all_writes_def pass1_writes_def split: prod.splits)
  with assms(2) show ?thesis
    by (cases clb) (simp_all add: pass1_resolved_new)
qed

text \<open>
  C3. Let the input header hold a read group with \<open>ID\<close> \<open>rg1\<close> and \<open>LB\<close> \<open>libX\<close>, and no
  other read group with that \<open>ID\<close> (identifiers are unique in a header). Let a record of the
  stream carry the tag \<open>RG\<close> = \<open>rg1\<close> and no \<open>LB\<close> tag, let the first template be
  \<open>{ID: new}\<close>, and let library preservation be on. Then the mapping resolved for the
  record is \<open>{ID: new.libX, LB: libX}\<close>, the record is written with the tag \<open>RG\<close> =
  \<open>new.libX\<close>, and \<open>new.libX\<close> is a key of the final set; when this is the only template,
  the entry under that key, which is in the header written, is that mapping.
\<close>

theorem library_preserved:
  assumes "e \<in> set (header_rg h)"
    and "map_of e ''ID'' = Some ''rg1''" and "map_of e ''LB'' = Some ''libX''"
    and "\<forall>e' \<in> set (header_rg h). map_of e' ''ID'' = Some ''rg1'' \<longrightarrow> e' = e"
    and "tags rd ''RG'' = Some ''rg1''" and "tags rd ''LB'' = None"
    and "j < length rds" and "rds ! j = rd"
  shows "(let rgs = [(''ID'', ''new'')] # ts;
              out = process_bam h rds rgs True s;
              assigned = [(''ID'', ''new.libX''), (''LB'', ''libX'')]
          in pass2_resolved (need_pass1 rgs True) True (rg_to_lb_of h rgs True) rgs rd = assigned \<and>
             out_reads out ! j = set_tag rd ''RG'' ''new.libX'' \<and>
             tags (out_reads out ! j) ''RG'' = Some ''new.libX'' \<and>
             ''new.libX'' \<in> fst ` set (final_rgs_of h rds rgs True) \<and>
             (ts = [] \<longrightarrow>
                map_of (final_rgs_of h rds rgs True) ''new.libX'' = Some assigned \<and>
                (\<exists>es. map_of (out_header out) ''RG'' = Some (Entries es) \<and> assigned \<in> set es)))"
proof -
  let ?t = "[(''ID'', ''new'')]"
  let ?rgs = "?t # ts"
  let ?a = "[(''ID'', ''new.libX''), (''LB'', ''libX'')]"
  let ?m = "rg_to_lb_of h ?rgs True"
  let ?out = "process_bam h rds ?rgs True s"
  have n: "need_pass1 ?rgs True = True" by (simp add: need_pass1_def)
  have m: "?m = build_rg_to_lb h" by (simp add: rg_to_lb_of_def need_pass1_def)
  have look: "map_of ?m ''rg1'' = Some ''libX''"
    unfolding m using assms(1-4) by (rule rg_to_lb_lookup)
  have clb: "pass1_current_lb True ?m rd = Some ''libX''"
    using assms(5,6) look by (simp add: pass1_current_lb_def)
  have res: "pass2_resolved (need_pass1 ?rgs True) True ?m ?rgs rd = ?a"
    unfolding n pass2_resolved_first clb
    by (simp add: pass1_resolved_new split: prod.splits)
  have id: "pass2_rg_id (need_pass1 ?rgs True) True ?m ?rgs rd = Some ''new.libX''"
    unfolding pass2_rg_id_def res by simp
  have asg: "pass2_assigned (need_pass1 ?rgs True) True ?m ?rgs rd = set_tag rd ''RG'' ''new.libX''"
    unfolding pass2_assigned_def id by (simp add: assign_def)
  have out: "out_reads ?out ! j = set_tag rd ''RG'' ''new.libX''"
    unfolding out_reads_process_bam using assms(7,8) asg by simp
  have tag: "tags (out_reads ?out ! j) ''RG'' = Some ''new.libX''"
    unfolding out by (simp add: set_tag_def)
  have rd: "rd \<in> set rds" using assms(7,8) nth_mem by blast
  have first: "(case get_flowcell_lane (query_name rd) of
                 (fc, lane) \<Rightarrow> pass1_resolved fc lane (pass1_current_lb True ?m rd) ?t) = ?a"
    unfolding clb by (simp add: pass1_resolved_new split: prod.splits)
  have w: "?a \<in> set (pass1_writes True ?m ?rgs rd)"
    unfolding pass1_writes_first first by simp
  have ida: "map_of ?a ''ID'' = Some ''new.libX''" by simp
  have key: "''new.libX'' \<in> fst ` set (final_rgs_of h rds ?rgs True)"
    using n rd w ida by (intro writes_registered [where r = ?a and rd = rd]) simp_all
  have single: "map_of (final_rgs_of h rds ?rgs True) ''new.libX'' = Some ?a \<and>
      (\<exists>es. map_of (out_header ?out) ''RG'' = Some (Entries es) \<and> ?a \<in> set es)" if ts: "ts = []"
  proof -
    let ?ws = "all_writes True ?m [?t] rds"
    have "?a \<in> set ?ws"
      using w rd unfolding ts all_writes_def by auto
    moreover have "\<forall>r' \<in> set ?ws. map_of r' ''ID'' = Some ''new.libX'' \<longrightarrow> r' = ?a"
      using writes_new_unique by blast
    ultimately have "map_of (fold upsert ?ws []) ''new.libX'' = Some ?a"
      using ida by (intro map_of_fold_upsert_unique)
    then have f: "map_of (final_rgs_of h rds ?rgs True) ''new.libX'' = Some ?a"
      unfolding ts by (simp add: final_rgs_of_writes need_pass1_def)
    then have "?a \<in> snd ` set (final_rgs_of h rds ?rgs True)"
      by (metis map_of_SomeD image_eqI snd_conv)
    then have "?a \<in> set (sorted_rgs (final_rgs_of h rds ?rgs True))"
      by (simp add: sorted_rgs_def)
    moreover have "map_of (out_header ?out) ''RG''
        = Some (Entries (sorted_rgs (final_rgs_of h rds ?rgs True)))"
      by (simp add: out_header_process_bam map_of_new_header)
    ultimately show ?thesis using f by blast
  qed
  from single have single': "ts = [] \<longrightarrow>
      map_of (final_rgs_of h rds ?rgs True) ''new.libX'' = Some ?a \<and>
      (\<exists>es. map_of (out_header ?out) ''RG'' = Some (Entries es) \<and> ?a \<in> set es)"
    by (rule impI)
  from res out tag key single' show ?thesis unfolding Let_def by (intro conjI)
qed

theorem library_preserved_witness:
  "header_rg [(''RG'', Entries [[(''ID'', ''rg1''), (''LB'', ''libX'')]])]
     = [[(''ID'', ''rg1''), (''LB'', ''libX'')]] \<and>
   tags (out_reads (process_bam [(''RG'', Entries [[(''ID'', ''rg1''), (''LB'', ''libX'')]])]
      [\<lparr>query_name = ''readA'', tags = [''RG'' \<mapsto> ''rg1''], payload = 0\<rparr>]
      [[(''ID'', ''new'')]] True False) ! 0) ''RG'' = Some ''new.libX'' \<and>
   map_of (final_rgs_of [(''RG'', Entries [[(''ID'', ''rg1''), (''LB'', ''libX'')]])]
      [\<lparr>query_name = ''readA'', tags = [''RG'' \<mapsto> ''rg1''], payload = 0\<rparr>]
      [[(''ID'', ''new'')]] True) ''new.libX''
     = Some [(''ID'', ''new.libX''), (''LB'', ''libX'')]"
proof -
  let ?e = "[(''ID'', ''rg1''), (''LB'', ''libX'')]"
  let ?h = "[(''RG'', Entries [?e])]"
  let ?rd = "\<lparr>query_name = ''readA'', tags = [''RG'' \<mapsto> ''rg1''], payload = 0\<rparr>"
  have hr: "header_rg ?h = [?e]" by (simp add: header_rg_def)
  have a1: "?e \<in> set (header_rg ?h)" unfolding hr by simp
  have a2: "map_of ?e ''ID'' = Some ''rg1''" by simp
  have a3: "map_of ?e ''LB'' = Some ''libX''" by simp
  have a4: "\<forall>e' \<in> set (header_rg ?h). map_of e' ''ID'' = Some ''rg1'' \<longrightarrow> e' = ?e"
    unfolding hr by simp
  have a5: "tags ?rd ''RG'' = Some ''rg1''" by simp
  have a6: "tags ?rd ''LB'' = None" by simp
  have a7: "0 < length [?rd]" by simp
  have a8: "[?rd] ! 0 = ?rd" by simp
  note main = library_preserved [OF a1 a2 a3 a4 a5 a6 a7 a8, of "[]" False, unfolded Let_def]
  have t: "tags (out_reads (process_bam ?h [?rd] [[(''ID'', ''new'')]] True False) ! 0) ''RG''
      = Some ''new.libX''"
    using main [THEN conjunct2, THEN conjunct2, THEN conjunct1] .
  have f: "map_of (final_rgs_of ?h [?rd] [[(''ID'', ''new'')]] True) ''new.libX''
      = Some [(''ID'', ''new.libX''), (''LB'', ''libX'')]"
    using main [THEN conjunct2, THEN conjunct2, THEN conjunct2, THEN conjunct2, THEN mp,
        OF refl, THEN conjunct1] .
  from hr t f show ?thesis by (intro conjI)
qed

lemma keys_resolve_rg: "map fst (resolve_rg t fc lane) = map fst t"
  by (simp add: resolve_rg_def Let_def case_prod_beta comp_def)

lemma resolve_rg_None: "map_of (resolve_rg t fc lane) k = None \<longleftrightarrow> map_of t k = None"
proof -
  have "fst ` set (resolve_rg t fc lane) = fst ` set t"
    using keys_resolve_rg [of t fc lane] by (metis set_map)
  then show ?thesis by (simp add: map_of_eq_None_iff)
qed

lemma pass1_resolved_no_id:
  "map_of t ''ID'' = None \<Longrightarrow> map_of (pass1_resolved fc lane None t) ''ID'' = None"
  by (simp add: pass1_resolved_def resolve_rg_None)

lemma entries_have_id:
  assumes "keyed_by_id f" "e \<in> set (sorted_rgs f)"
  shows "map_of e ''ID'' \<noteq> None"
proof -
  from assms(2) obtain k where "(k, e) \<in> set f" by (auto simp: sorted_rgs_def)
  with assms(1) show ?thesis by (auto simp: keyed_by_id_def)
qed

lemma key_has_entry:
  assumes "keyed_by_id f" "i \<in> fst ` set f"
  shows "\<exists>e \<in> set (sorted_rgs f). map_of e ''ID'' = Some i"
proof -
  from assms(2) obtain e where e: "(i, e) \<in> set f" by auto
  with assms(1) have "map_of e ''ID'' = Some i" by (auto simp: keyed_by_id_def)
  moreover from e have "e \<in> set (sorted_rgs f)" by (force simp: sorted_rgs_def)
  ultimately show ?thesis by blast
qed

lemma out_rg_section:
  "map_of (out_header (process_bam h rds rgs p s)) ''RG''
     = Some (Entries (sorted_rgs (final_rgs_of h rds rgs p)))"
  by (simp add: out_header_process_bam map_of_new_header)

lemma candidate_registered:
  assumes "rd \<in> set rds"
    and "pass2_rg_id (need_pass1 rgs p) p (rg_to_lb_of h rgs p) rgs rd = Some i"
  shows "i \<in> fst ` set (final_rgs_of h rds rgs p)"
proof (cases rgs)
  case Nil
  with assms(2) show ?thesis by (simp add: pass2_rg_id_def)
next
  case (Cons t ts)
  show ?thesis
  proof (cases "need_pass1 rgs p")
    case True
    let ?m = "rg_to_lb_of h rgs p"
    let ?first = "case get_flowcell_lane (query_name rd) of
                    (fc, lane) \<Rightarrow> pass1_resolved fc lane (pass1_current_lb p ?m rd) t"
    have n: "need_pass1 rgs p = True" using True by simp
    have "pass2_resolved (need_pass1 rgs p) p ?m rgs rd = ?first"
      unfolding n unfolding Cons by (rule pass2_resolved_first)
    with assms(2) have id: "map_of ?first ''ID'' = Some i"
      by (simp add: pass2_rg_id_def Cons)
    have "?first \<in> set (pass1_writes p ?m rgs rd)"
      unfolding Cons pass1_writes_first by simp
    with True assms(1) show ?thesis using id by (rule writes_registered)
  next
    case False
    then have "pass2_resolved (need_pass1 rgs p) p (rg_to_lb_of h rgs p) rgs rd = t"
      by (simp add: pass2_resolved_def Cons)
    with assms(2) have "map_of t ''ID'' = Some i" by (simp add: pass2_rg_id_def Cons)
    then have "i \<in> fst ` set (fold upsert rgs [])"
      unfolding keys_fold_upsert Cons by simp
    with False show ?thesis by (simp add: final_rgs_of_def)
  qed
qed

lemma pass2_read_assigned:
  "pass2_read n p m rgs rd (c, w) =
     (increment (bucket (pass2_assigned n p m rgs rd)) c, w @ [pass2_assigned n p m rgs rd])"
  by (simp add: pass2_read_def pass2_assigned_def Let_def)

lemma pass1_resolved_id_from_lb:
  assumes "map_of t ''ID'' = None"
  shows "map_of (pass1_resolved fc lane (Some lb) t) ''ID'' = Some lb"
proof -
  have "map_of (AList.update ''LB'' lb (resolve_rg t fc lane)) ''ID'' = None"
    using assms by (simp add: update_conv' resolve_rg_None)
  then show ?thesis by (simp add: pass1_resolved_def update_conv')
qed

text \<open>
  C6, as the code has it. With library preservation a template without an \<open>ID\<close> does
  reach the header: for a record with the tag \<open>LB\<close> = \<open>lib1\<close> the mapping resolved from
  \<open>{SM: s}\<close> gets the \<open>ID\<close> \<open>lib1\<close>, is the entry of the \<open>RG\<close> section written, and the
  record is counted under \<open>lib1\<close>. And a record that gets no assignment is not always
  counted under \<open>None\<close>: a record that carries the tag \<open>RG\<close> = \<open>old\<close>, resolved against a
  template without an \<open>ID\<close> in a first pass, is written as it is and counted under \<open>old\<close>.
\<close>

theorem template_without_id_counterexample:
  "map_of [(''SM'', ''s'')] ''ID'' = None \<and>
   pass1_writes True (rg_to_lb_of [] [[(''SM'', ''s'')]] True) [[(''SM'', ''s'')]]
     \<lparr>query_name = ''readA'', tags = [''LB'' \<mapsto> ''lib1''], payload = 0\<rparr>
     = [[(''SM'', ''s''), (''LB'', ''lib1''), (''ID'', ''lib1'')]] \<and>
   map_of (out_header (process_bam []
       [\<lparr>query_name = ''readA'', tags = [''LB'' \<mapsto> ''lib1''], payload = 0\<rparr>]
       [[(''SM'', ''s'')]] True False)) ''RG''
     = Some (Entries [[(''SM'', ''s''), (''LB'', ''lib1''), (''ID'', ''lib1'')]]) \<and>
   out_counts (process_bam []
       [\<lparr>query_name = ''readA'', tags = [''LB'' \<mapsto> ''lib1''], payload = 0\<rparr>]
       [[(''SM'', ''s'')]] True False) = [(''lib1'', 1)] \<and>
   map_of [(''SM'', ''[FLOWCELL]'')] ''ID'' = None \<and>
   need_pass1 [[(''SM'', ''[FLOWCELL]'')]] False \<and>
   pass2_rg_id (need_pass1 [[(''SM'', ''[FLOWCELL]'')]] False) False
       (rg_to_lb_of [] [[(''SM'', ''[FLOWCELL]'')]] False) [[(''SM'', ''[FLOWCELL]'')]]
       \<lparr>query_name = ''a:b:FC1:L1'', tags = [''RG'' \<mapsto> ''old''], payload = 0\<rparr> = None \<and>
   out_reads (process_bam []
       [\<lparr>query_name = ''a:b:FC1:L1'', tags = [''RG'' \<mapsto> ''old''], payload = 0\<rparr>]
       [[(''SM'', ''[FLOWCELL]'')]] False False)
     = [\<lparr>query_name = ''a:b:FC1:L1'', tags = [''RG'' \<mapsto> ''old''], payload = 0\<rparr>] \<and>
   out_counts (process_bam []
       [\<lparr>query_name = ''a:b:FC1:L1'', tags = [''RG'' \<mapsto> ''old''], payload = 0\<rparr>]
       [[(''SM'', ''[FLOWCELL]'')]] False False) = [(''old'', 1)] \<and>
   count_of (out_counts (process_bam []
       [\<lparr>query_name = ''a:b:FC1:L1'', tags = [''RG'' \<mapsto> ''old''], payload = 0\<rparr>]
       [[(''SM'', ''[FLOWCELL]'')]] False False)) ''None'' = 0"
proof -
  let ?t = "[(''SM'', ''s'')]"
  let ?rd = "\<lparr>query_name = ''readA'', tags = [''LB'' \<mapsto> ''lib1''], payload = 0\<rparr>"
  let ?e = "[(''SM'', ''s''), (''LB'', ''lib1''), (''ID'', ''lib1'')]"
  let ?u = "[(''SM'', ''[FLOWCELL]'')]"
  let ?rd' = "\<lparr>query_name = ''a:b:FC1:L1'', tags = [''RG'' \<mapsto> ''old''], payload = 0\<rparr>"
  have n: "need_pass1 [?t] True = True" by (simp add: need_pass1_def)
  have m: "rg_to_lb_of [] [?t] True = []"
    by (simp add: rg_to_lb_of_def build_rg_to_lb_def header_rg_def)
  have w: "pass1_writes True (rg_to_lb_of [] [?t] True) [?t] ?rd = [?e]"
    unfolding m
    by (simp add: pass1_writes_def pass1_resolved_def pass1_current_lb_def resolve_rg_def
        get_flowcell_lane_def)
  have f: "final_rgs_of [] [?rd] [?t] True = [(''lib1'', ?e)]"
    unfolding final_rgs_of_writes n m using w [unfolded m]
    by (simp add: all_writes_def upsert_def)
  have h: "map_of (out_header (process_bam [] [?rd] [?t] True False)) ''RG'' = Some (Entries [?e])"
    unfolding out_rg_section f by (simp add: sorted_rgs_def)
  have b: "bucket (pass2_assigned True True [] [?t] ?rd) = ''lib1''"
    by (simp add: pass2_assigned_def pass2_rg_id_def pass2_resolved_def get_flowcell_lane_def
        resolve_rg_def assign_def set_tag_def bucket_def)
  have c: "out_counts (process_bam [] [?rd] [?t] True False) = [(''lib1'', 1)]"
    unfolding out_counts_process_bam n m by (simp add: b increment_def)
  have n': "need_pass1 [?u] False = True" by (simp add: need_pass1_def placeholders_def)
  have m': "rg_to_lb_of [] [?u] False = []" by (simp add: rg_to_lb_of_def)
  have i': "pass2_rg_id (need_pass1 [?u] False) False (rg_to_lb_of [] [?u] False) [?u] ?rd' = None"
    unfolding n' m'
    by (simp add: pass2_rg_id_def pass2_resolved_def get_flowcell_lane_def resolve_rg_def)
  have a': "pass2_assigned True False [] [?u] ?rd' = ?rd'"
    using i' unfolding n' m' by (simp add: pass2_assigned_def assign_def)
  have r': "out_reads (process_bam [] [?rd'] [?u] False False) = [?rd']"
    unfolding out_reads_process_bam n' m' by (simp add: a')
  have c': "out_counts (process_bam [] [?rd'] [?u] False False) = [(''old'', 1)]"
    unfolding out_counts_process_bam n' m' by (simp add: a' bucket_def increment_def)
  have z: "count_of (out_counts (process_bam [] [?rd'] [?u] False False)) ''None'' = 0"
    unfolding c' by (simp add: count_of_def)
  have t1: "map_of ?t ''ID'' = None" by simp
  have t2: "map_of ?u ''ID'' = None" by simp
  have n'': "need_pass1 [?u] False" using n' by simp
  from t1 w h c t2 n'' i' r' c' z show ?thesis by (intro conjI)
qed

text \<open>
  C6, amended. Every entry of the \<open>RG\<close> section written has an \<open>ID\<close>, so a template
  without an \<open>ID\<close> is never itself an entry of it. The mapping resolved from such a template
  for a record without \<open>current_lb\<close> has no \<open>ID\<close> either, and its upsert leaves the final
  set as it is; for a record with \<open>current_lb\<close> the mapping resolved has \<open>current_lb\<close> as its
  \<open>ID\<close>. When a first pass is needed, the first template has no \<open>ID\<close> and the record has no
  \<open>current_lb\<close>, the output pass finds no candidate identifier: the record is written as
  it is and counted in the bucket of the tag it carries, which is \<open>None\<close>, one higher than
  before, for a record without an \<open>RG\<close> tag.
\<close>

theorem template_without_id:
  assumes "map_of t ''ID'' = None"
  shows "(\<exists>es. map_of (out_header (process_bam h rds rgs p s)) ''RG'' = Some (Entries es) \<and>
            (\<forall>e \<in> set es. map_of e ''ID'' \<noteq> None) \<and> t \<notin> set es) \<and>
         map_of (pass1_resolved fc lane None t) ''ID'' = None \<and>
         upsert (pass1_resolved fc lane None t) f = f \<and>
         map_of (pass1_resolved fc lane (Some lb) t) ''ID'' = Some lb \<and>
         (need_pass1 (t # ts) p \<and> pass1_current_lb p (rg_to_lb_of h (t # ts) p) rd = None \<longrightarrow>
            pass2_rg_id (need_pass1 (t # ts) p) p (rg_to_lb_of h (t # ts) p) (t # ts) rd = None \<and>
            pass2_read (need_pass1 (t # ts) p) p (rg_to_lb_of h (t # ts) p) (t # ts) rd (c, w)
              = (increment (bucket rd) c, w @ [rd]) \<and>
            (tags rd ''RG'' = None \<longrightarrow>
               bucket rd = ''None'' \<and>
               count_of (increment (bucket rd) c) ''None'' = count_of c ''None'' + 1))"
proof -
  let ?f = "final_rgs_of h rds rgs p"
  let ?m = "rg_to_lb_of h (t # ts) p"
  have ids: "\<forall>e \<in> set (sorted_rgs ?f). map_of e ''ID'' \<noteq> None"
    using keyed_final_rgs_of entries_have_id by blast
  with assms have "t \<notin> set (sorted_rgs ?f)" by blast
  with ids have hdr: "\<exists>es. map_of (out_header (process_bam h rds rgs p s)) ''RG'' = Some (Entries es) \<and>
            (\<forall>e \<in> set es. map_of e ''ID'' \<noteq> None) \<and> t \<notin> set es"
    using out_rg_section by blast
  have no: "map_of (pass1_resolved fc lane None t) ''ID'' = None" for fc lane
    using assms by (rule pass1_resolved_no_id)
  have up: "upsert (pass1_resolved fc lane None t) f = f"
    by (simp add: upsert_def no)
  have p2: "pass2_rg_id (need_pass1 (t # ts) p) p ?m (t # ts) rd = None \<and>
            pass2_read (need_pass1 (t # ts) p) p ?m (t # ts) rd (c, w)
              = (increment (bucket rd) c, w @ [rd]) \<and>
            (tags rd ''RG'' = None \<longrightarrow>
               bucket rd = ''None'' \<and>
               count_of (increment (bucket rd) c) ''None'' = count_of c ''None'' + 1)"
    if n: "need_pass1 (t # ts) p" and clb: "pass1_current_lb p ?m rd = None"
  proof -
    have n': "need_pass1 (t # ts) p = True" using n by simp
    have "pass2_resolved (need_pass1 (t # ts) p) p ?m (t # ts) rd
        = (case get_flowcell_lane (query_name rd) of (fc, lane) \<Rightarrow> pass1_resolved fc lane None t)"
      unfolding n' pass2_resolved_first clb ..
    then have id: "pass2_rg_id (need_pass1 (t # ts) p) p ?m (t # ts) rd = None"
      by (simp add: pass2_rg_id_def no split: prod.splits)
    then have a: "pass2_assigned (need_pass1 (t # ts) p) p ?m (t # ts) rd = rd"
      by (simp add: pass2_assigned_def assign_def)
    have rd: "pass2_read (need_pass1 (t # ts) p) p ?m (t # ts) rd (c, w)
              = (increment (bucket rd) c, w @ [rd])"
      unfolding pass2_read_assigned a ..
    have "tags rd ''RG'' = None \<longrightarrow> bucket rd = ''None'' \<and>
        count_of (increment (bucket rd) c) ''None'' = count_of c ''None'' + 1"
      by (simp add: bucket_def count_of_increment)
    with id rd show ?thesis by (intro conjI)
  qed
  from p2 have p2': "need_pass1 (t # ts) p \<and> pass1_current_lb p ?m rd = None \<longrightarrow>
            pass2_rg_id (need_pass1 (t # ts) p) p ?m (t # ts) rd = None \<and>
            pass2_read (need_pass1 (t # ts) p) p ?m (t # ts) rd (c, w)
              = (increment (bucket rd) c, w @ [rd]) \<and>
            (tags rd ''RG'' = None \<longrightarrow>
               bucket rd = ''None'' \<and>
               count_of (increment (bucket rd) c) ''None'' = count_of c ''None'' + 1)"
  proof (intro impI, elim conjE)
    assume a: "need_pass1 (t # ts) p" and b: "pass1_current_lb p ?m rd = None"
    from p2 [OF a b] show "pass2_rg_id (need_pass1 (t # ts) p) p ?m (t # ts) rd = None \<and>
            pass2_read (need_pass1 (t # ts) p) p ?m (t # ts) rd (c, w)
              = (increment (bucket rd) c, w @ [rd]) \<and>
            (tags rd ''RG'' = None \<longrightarrow>
               bucket rd = ''None'' \<and>
               count_of (increment (bucket rd) c) ''None'' = count_of c ''None'' + 1)" .
  qed
  have lb: "map_of (pass1_resolved fc lane (Some lb) t) ''ID'' = Some lb"
    using assms by (rule pass1_resolved_id_from_lb)
  from hdr no up lb p2' show ?thesis by (intro conjI)
qed

theorem template_without_id_witness:
  "map_of [(''SM'', ''[FLOWCELL]'')] ''ID'' = None \<and>
   need_pass1 [[(''SM'', ''[FLOWCELL]'')]] False \<and>
   pass1_current_lb False (rg_to_lb_of [] [[(''SM'', ''[FLOWCELL]'')]] False)
     \<lparr>query_name = ''a:b:FC1:L1'', tags = Map.empty, payload = 0\<rparr> = None \<and>
   pass2_read (need_pass1 [[(''SM'', ''[FLOWCELL]'')]] False) False
     (rg_to_lb_of [] [[(''SM'', ''[FLOWCELL]'')]] False) [[(''SM'', ''[FLOWCELL]'')]]
     \<lparr>query_name = ''a:b:FC1:L1'', tags = Map.empty, payload = 0\<rparr> ([], [])
     = ([(''None'', 1)], [\<lparr>query_name = ''a:b:FC1:L1'', tags = Map.empty, payload = 0\<rparr>]) \<and>
   final_rgs_of [] [\<lparr>query_name = ''a:b:FC1:L1'', tags = Map.empty, payload = 0\<rparr>]
     [[(''SM'', ''[FLOWCELL]'')]] False = [] \<and>
   count_of (increment (bucket \<lparr>query_name = ''a:b:FC1:L1'', tags = Map.empty, payload = 0\<rparr>) [])
     ''None'' = 1"
proof -
  let ?t = "[(''SM'', ''[FLOWCELL]'')]"
  let ?rd = "\<lparr>query_name = ''a:b:FC1:L1'', tags = Map.empty, payload = 0\<rparr>"
  have a: "map_of ?t ''ID'' = None" by simp
  have n: "need_pass1 [?t] False" by (simp add: need_pass1_def placeholders_def)
  have c: "pass1_current_lb False (rg_to_lb_of [] [?t] False) ?rd = None"
    by (simp add: pass1_current_lb_def)
  have g: "tags ?rd ''RG'' = None" by simp
  note main = template_without_id [OF a, of "[]" "[?rd]" "[?t]" False False "''FC1''" "''L1''" "[]"
      "''lib1''" "[]" ?rd "[]" "[]"]
  note p2 = main [THEN conjunct2, THEN conjunct2, THEN conjunct2, THEN conjunct2, THEN mp,
      OF conjI, OF n c]
  have b: "bucket ?rd = ''None''"
    using p2 [THEN conjunct2, THEN conjunct2, THEN mp, OF g, THEN conjunct1] .
  have cnt: "count_of (increment (bucket ?rd) []) ''None'' = count_of [] ''None'' + 1"
    using p2 [THEN conjunct2, THEN conjunct2, THEN mp, OF g, THEN conjunct2] .
  have r: "pass2_read (need_pass1 [?t] False) False (rg_to_lb_of [] [?t] False) [?t] ?rd ([], [])
      = ([(''None'', 1)], [?rd])"
    using p2 [THEN conjunct2, THEN conjunct1] unfolding b by (simp add: increment_def)
  have f: "final_rgs_of [] [?rd] [?t] False = []"
    using main [THEN conjunct2, THEN conjunct2, THEN conjunct1]
    by (simp add: final_rgs_of_def n pass1_read_def rg_to_lb_of_def pass1_current_lb_def
        get_flowcell_lane_def)
  have cnt': "count_of (increment (bucket ?rd) []) ''None'' = 1"
    using cnt by (simp add: count_of_def)
  from a n c r f cnt' show ?thesis by (intro conjI)
qed

lemma assign_cases:
  "assign cand rd = rd \<or> (\<exists>i. cand = Some i \<and> i \<noteq> [] \<and> assign cand rd = set_tag rd ''RG'' i)"
  by (cases cand) (auto simp: assign_def)

text \<open>
  C9. The record written for a record of the source is the record itself or the record with
  its \<open>RG\<close> tag set to a candidate identifier that is not empty; so a record written with
  an empty \<open>RG\<close> tag is a record of the source that carried it already. When the candidate
  identifier is the empty string the record is written as it is, and yet the empty string
  is a key of the final set and the \<open>ID\<close> of an entry of the \<open>RG\<close> section written.
\<close>

theorem empty_id_never_assigned:
  "(let out = process_bam h rds rgs p s;
        cand = pass2_rg_id (need_pass1 rgs p) p (rg_to_lb_of h rgs p) rgs
    in (\<forall>j. j < length rds \<longrightarrow>
          out_reads out ! j = assign (cand (rds ! j)) (rds ! j) \<and>
          (tags (out_reads out ! j) ''RG'' = Some [] \<longrightarrow>
             out_reads out ! j = rds ! j \<and> tags (rds ! j) ''RG'' = Some []) \<and>
          (cand (rds ! j) = Some [] \<longrightarrow>
             out_reads out ! j = rds ! j \<and>
             [] \<in> fst ` set (final_rgs_of h rds rgs p) \<and>
             (\<exists>es. map_of (out_header out) ''RG'' = Some (Entries es) \<and>
                   (\<exists>e \<in> set es. map_of e ''ID'' = Some [])))))"
proof -
  let ?out = "process_bam h rds rgs p s"
  let ?cand = "pass2_rg_id (need_pass1 rgs p) p (rg_to_lb_of h rgs p) rgs"
  let ?f = "final_rgs_of h rds rgs p"
  have step: "out_reads ?out ! j = assign (?cand (rds ! j)) (rds ! j) \<and>
          (tags (out_reads ?out ! j) ''RG'' = Some [] \<longrightarrow>
             out_reads ?out ! j = rds ! j \<and> tags (rds ! j) ''RG'' = Some []) \<and>
          (?cand (rds ! j) = Some [] \<longrightarrow>
             out_reads ?out ! j = rds ! j \<and>
             [] \<in> fst ` set ?f \<and>
             (\<exists>es. map_of (out_header ?out) ''RG'' = Some (Entries es) \<and>
                   (\<exists>e \<in> set es. map_of e ''ID'' = Some [])))"
    if j: "j < length rds" for j
  proof -
    let ?rd = "rds ! j"
    have o: "out_reads ?out ! j = assign (?cand ?rd) ?rd"
      using j by (simp add: out_reads_process_bam pass2_assigned_def)
    have t: "out_reads ?out ! j = ?rd \<and> tags ?rd ''RG'' = Some []"
      if e: "tags (out_reads ?out ! j) ''RG'' = Some []"
    proof -
      from assign_cases [of "?cand ?rd" ?rd] show ?thesis
      proof
        assume "assign (?cand ?rd) ?rd = ?rd"
        with o e show ?thesis by simp
      next
        assume "\<exists>i. ?cand ?rd = Some i \<and> i \<noteq> [] \<and> assign (?cand ?rd) ?rd = set_tag ?rd ''RG'' i"
        then obtain i where "i \<noteq> []" "assign (?cand ?rd) ?rd = set_tag ?rd ''RG'' i" by blast
        with o e show ?thesis by (simp add: set_tag_def)
      qed
    qed
    have r: "out_reads ?out ! j = ?rd \<and> [] \<in> fst ` set ?f \<and>
             (\<exists>es. map_of (out_header ?out) ''RG'' = Some (Entries es) \<and>
                   (\<exists>e \<in> set es. map_of e ''ID'' = Some []))"
      if c: "?cand ?rd = Some []"
    proof -
      have "out_reads ?out ! j = ?rd" unfolding o c by (simp add: assign_def)
      moreover have k: "[] \<in> fst ` set ?f"
        using j c by (intro candidate_registered [where rd = ?rd]) simp_all
      moreover have "\<exists>e \<in> set (sorted_rgs ?f). map_of e ''ID'' = Some []"
        using keyed_final_rgs_of k by (rule key_has_entry)
      ultimately show ?thesis using out_rg_section by blast
    qed
    from o t r show ?thesis by (intro conjI impI) blast+
  qed
  then show ?thesis unfolding Let_def by blast
qed

theorem empty_id_never_assigned_witness:
  "pass2_rg_id (need_pass1 [[(''ID'', ''''), (''SM'', ''s'')]] False) False
      (rg_to_lb_of [] [[(''ID'', ''''), (''SM'', ''s'')]] False) [[(''ID'', ''''), (''SM'', ''s'')]]
      \<lparr>query_name = ''readA'', tags = Map.empty, payload = 0\<rparr> = Some '''' \<and>
   out_reads (process_bam [] [\<lparr>query_name = ''readA'', tags = Map.empty, payload = 0\<rparr>]
      [[(''ID'', ''''), (''SM'', ''s'')]] False False) ! 0
     = \<lparr>query_name = ''readA'', tags = Map.empty, payload = 0\<rparr> \<and>
   '''' \<in> fst ` set (final_rgs_of [] [\<lparr>query_name = ''readA'', tags = Map.empty, payload = 0\<rparr>]
      [[(''ID'', ''''), (''SM'', ''s'')]] False) \<and>
   map_of (out_header (process_bam [] [\<lparr>query_name = ''readA'', tags = Map.empty, payload = 0\<rparr>]
      [[(''ID'', ''''), (''SM'', ''s'')]] False False)) ''RG''
     = Some (Entries [[(''ID'', ''''), (''SM'', ''s'')]])"
proof -
  let ?t = "[(''ID'', ''''), (''SM'', ''s'')]"
  let ?rd = "\<lparr>query_name = ''readA'', tags = Map.empty, payload = 0\<rparr>"
  have n: "need_pass1 [?t] False = False" by (simp add: need_pass1_def placeholders_def)
  have c: "pass2_rg_id (need_pass1 [?t] False) False (rg_to_lb_of [] [?t] False) [?t] ?rd = Some ''''"
    unfolding n by (simp add: pass2_rg_id_def pass2_resolved_def)
  have j: "0 < length [?rd]" by simp
  have nth: "[?rd] ! 0 = ?rd" by simp
  note main = empty_id_never_assigned [of "[]" "[?rd]" "[?t]" False False, unfolded Let_def,
      THEN spec, of 0, THEN mp, OF j, unfolded nth]
  note skipped = main [THEN conjunct2, THEN conjunct2, THEN mp, OF c]
  have f: "final_rgs_of [] [?rd] [?t] False = [('''', ?t)]"
    by (simp add: final_rgs_of_def n upsert_def)
  have hd: "map_of (out_header (process_bam [] [?rd] [?t] False False)) ''RG'' = Some (Entries [?t])"
    unfolding out_rg_section f by (simp add: sorted_rgs_def)
  from c skipped [THEN conjunct1] skipped [THEN conjunct2, THEN conjunct1] hd
  show ?thesis by (intro conjI)
qed

section \<open>The claim about the tag overrides\<close>

lemma extra_tags_filter:
  "extra_tags ts = extra_tags (filter (\<lambda>s. CHR '':'' \<in> set s) ts)"
  unfolding extra_tags_fold by (rule fold_parse_tag_filter)

lemma extra_tags_ignore:
  "CHR '':'' \<notin> set s \<Longrightarrow> extra_tags (pre @ s # post) = extra_tags (pre @ post)"
  by (simp add: extra_tags_fold parse_tag_def str_contains_colon)

lemma distinct_extra_tags: "distinct (map fst (extra_tags ts))"
  unfolding extra_tags_fold by (rule distinct_fold_parse_tag) simp

lemma merge_tags_map:
  "merge_tags (Some ts) rgs = map (dict_update (extra_tags ts)) rgs"
proof (cases ts)
  case Nil
  have "dict_update [] = (\<lambda>rg. rg)" by (simp add: dict_update_def fun_eq_iff)
  with Nil show ?thesis by (simp add: merge_tags_def extra_tags_def)
next
  case (Cons a list)
  then show ?thesis by (simp add: merge_tags_def)
qed

lemma map_of_merged:
  "map_of (dict_update (extra_tags ts) rg) k =
     (case map_of (extra_tags ts) k of Some v \<Rightarrow> Some v | None \<Rightarrow> map_of rg k)"
  using distinct_extra_tags by (rule map_of_dict_update)

lemma override_wins:
  assumes "CHR '':'' \<in> set s" "ts = pre @ s # post"
    and "\<forall>s' \<in> set post. CHR '':'' \<in> set s' \<longrightarrow> fst (split_first s') \<noteq> fst (split_first s)"
    and "rg \<in> set (merge_tags (Some ts) rgs)"
  shows "map_of rg (fst (split_first s)) = Some (snd (split_first s))"
proof -
  have "map_of (extra_tags ts) (fst (split_first s)) = Some (snd (split_first s))"
    unfolding extra_tags_fold assms(2) using assms(1,3) by (rule map_of_fold_parse_tag_last)
  moreover from assms(4) obtain rg0 where "rg = dict_update (extra_tags ts) rg0"
    unfolding merge_tags_map by auto
  ultimately show ?thesis by (simp add: map_of_merged)
qed

lemma other_keys_kept:
  assumes "j < length rgs" "k \<notin> fst ` set (extra_tags ts)"
  shows "map_of (merge_tags (Some ts) rgs ! j) k = map_of (rgs ! j) k"
proof -
  from assms(2) have "map_of (extra_tags ts) k = None" by (simp add: map_of_eq_None_iff)
  with assms(1) show ?thesis by (simp add: merge_tags_map map_of_merged)
qed

text \<open>
  C10. The overrides parsed from the tag strings are those parsed from the strings that
  hold a colon: a string without one changes nothing wherever it stands, and there is no
  failing branch. A string with a colon is its key, a colon and its value, the key holding
  no colon, so the split is at the first colon and the value may hold more. The value of a
  string with a colon that no later string with the same key follows is, under its key, in
  every template after the merge; the templates are as many as before, and a key that is
  not overridden keeps what it had.
\<close>

theorem tag_overrides:
  "extra_tags tag_strs = extra_tags (filter (\<lambda>s. CHR '':'' \<in> set s) tag_strs) \<and>
   (\<forall>s pre post. CHR '':'' \<notin> set s \<longrightarrow> extra_tags (pre @ s # post) = extra_tags (pre @ post)) \<and>
   (\<forall>s. CHR '':'' \<in> set s \<longrightarrow>
      s = fst (split_first s) @ '':'' @ snd (split_first s) \<and>
      CHR '':'' \<notin> set (fst (split_first s))) \<and>
   (\<forall>s pre post rg.
      CHR '':'' \<in> set s \<and> tag_strs = pre @ s # post \<and>
      (\<forall>s' \<in> set post. CHR '':'' \<in> set s' \<longrightarrow> fst (split_first s') \<noteq> fst (split_first s)) \<and>
      rg \<in> set (merge_tags (Some tag_strs) rgs_data) \<longrightarrow>
      map_of rg (fst (split_first s)) = Some (snd (split_first s))) \<and>
   length (merge_tags (Some tag_strs) rgs_data) = length rgs_data \<and>
   (\<forall>j k. j < length rgs_data \<and> k \<notin> fst ` set (extra_tags tag_strs) \<longrightarrow>
      map_of (merge_tags (Some tag_strs) rgs_data ! j) k = map_of (rgs_data ! j) k)"
proof (intro conjI allI impI)
  show "extra_tags tag_strs = extra_tags (filter (\<lambda>s. CHR '':'' \<in> set s) tag_strs)"
    by (rule extra_tags_filter)
next
  fix s pre post assume "CHR '':'' \<notin> set s"
  then show "extra_tags (pre @ s # post) = extra_tags (pre @ post)" by (rule extra_tags_ignore)
next
  fix s assume s: "CHR '':'' \<in> set s"
  then show "s = fst (split_first s) @ '':'' @ snd (split_first s)" by (rule split_first_parts)
  from s show "CHR '':'' \<notin> set (fst (split_first s))" by (rule split_first_parts)
next
  fix s pre post rg
  assume "CHR '':'' \<in> set s \<and> tag_strs = pre @ s # post \<and>
      (\<forall>s' \<in> set post. CHR '':'' \<in> set s' \<longrightarrow> fst (split_first s') \<noteq> fst (split_first s)) \<and>
      rg \<in> set (merge_tags (Some tag_strs) rgs_data)"
  then show "map_of rg (fst (split_first s)) = Some (snd (split_first s))"
    by (elim conjE) (rule override_wins)
next
  show "length (merge_tags (Some tag_strs) rgs_data) = length rgs_data"
    by (simp add: merge_tags_map)
next
  fix j k assume "j < length rgs_data \<and> k \<notin> fst ` set (extra_tags tag_strs)"
  then show "map_of (merge_tags (Some tag_strs) rgs_data ! j) k = map_of (rgs_data ! j) k"
    by (elim conjE) (rule other_keys_kept)
qed

theorem tag_overrides_witness:
  "extra_tags [''DS:a:b'', ''junk'', ''SM:z''] = [(''DS'', ''a:b''), (''SM'', ''z'')] \<and>
   extra_tags [''DS:a:b'', ''SM:z''] = extra_tags [''DS:a:b'', ''junk'', ''SM:z''] \<and>
   split_first ''DS:a:b'' = (''DS'', ''a:b'') \<and>
   merge_tags (Some [''DS:a:b'', ''junk'', ''SM:z'']) [[(''ID'', ''1''), (''SM'', ''q'')], []]
     = [[(''ID'', ''1''), (''SM'', ''z''), (''DS'', ''a:b'')], [(''DS'', ''a:b''), (''SM'', ''z'')]] \<and>
   map_of (merge_tags (Some [''DS:a:b'', ''junk'', ''SM:z'']) [[(''ID'', ''1''), (''SM'', ''q'')], []] ! 0)
     ''DS'' = Some ''a:b'' \<and>
   map_of (merge_tags (Some [''DS:a:b'', ''junk'', ''SM:z'']) [[(''ID'', ''1''), (''SM'', ''q'')], []] ! 0)
     ''ID'' = Some ''1''"
proof -
  let ?ts = "[''DS:a:b'', ''junk'', ''SM:z'']"
  let ?rgs = "[[(''ID'', ''1''), (''SM'', ''q'')], []]"
  note main = tag_overrides [of ?ts ?rgs]
  have sf: "split_first ''DS:a:b'' = (''DS'', ''a:b'')" by (simp add: split_first_def)
  have sf2: "split_first ''SM:z'' = (''SM'', ''z'')" by (simp add: split_first_def)
  have e: "extra_tags ?ts = [(''DS'', ''a:b''), (''SM'', ''z'')]"
    by (simp add: extra_tags_def sf sf2)
  have nc: "CHR '':'' \<notin> set ''junk''" by simp
  have ig: "extra_tags ([''DS:a:b''] @ [''SM:z'']) = extra_tags ([''DS:a:b''] @ ''junk'' # [''SM:z''])"
    using main [THEN conjunct2, THEN conjunct1, THEN spec, THEN spec, THEN spec, THEN mp, OF nc,
        of "[''DS:a:b'']" "[''SM:z'']"] by (rule sym)
  have m: "merge_tags (Some ?ts) ?rgs
     = [[(''ID'', ''1''), (''SM'', ''z''), (''DS'', ''a:b'')], [(''DS'', ''a:b''), (''SM'', ''z'')]]"
    by (simp add: merge_tags_def e dict_update_def)
  have c: "CHR '':'' \<in> set ''DS:a:b''" by simp
  have pre: "?ts = [] @ ''DS:a:b'' # [''junk'', ''SM:z'']" by simp
  have later: "\<forall>s' \<in> set [''junk'', ''SM:z'']. CHR '':'' \<in> set s' \<longrightarrow>
      fst (split_first s') \<noteq> fst (split_first ''DS:a:b'')"
    by (simp add: sf sf2)
  have mem: "merge_tags (Some ?ts) ?rgs ! 0 \<in> set (merge_tags (Some ?ts) ?rgs)"
    unfolding m by simp
  have ds: "map_of (merge_tags (Some ?ts) ?rgs ! 0) (fst (split_first ''DS:a:b''))
      = Some (snd (split_first ''DS:a:b''))"
    using main [THEN conjunct2, THEN conjunct2, THEN conjunct2, THEN conjunct1, THEN spec,
        THEN spec, THEN spec, THEN spec, THEN mp, OF conjI, OF c, OF conjI, OF pre,
        OF conjI, OF later mem] .
  have j: "0 < length ?rgs \<and> ''ID'' \<notin> fst ` set (extra_tags ?ts)" unfolding e by simp
  have id: "map_of (merge_tags (Some ?ts) ?rgs ! 0) ''ID'' = map_of (?rgs ! 0) ''ID''"
    using main [THEN conjunct2, THEN conjunct2, THEN conjunct2, THEN conjunct2, THEN conjunct2,
        THEN spec, THEN spec, THEN mp, OF j] .
  from e ig sf m ds id show ?thesis by (simp add: sf)
qed

end
